theory Spec2Isabelle
  imports Main "HOL-Library.AList"
begin

section \<open>A Playwright reporter and its uploader\<close>

text \<open>
  A model of the Playwright reporter \<open>ChalishaReporter\<close> and of its uploader
  \<open>AzureBlobStorageUploader\<close>. Each method of the two classes is a definition of the same
  name; a method that has effects takes the \<open>world\<close> (file system, working directory,
  clock, identifier source, console, record of remote calls) and returns it updated,
  and a \<open>throw\<close> is an \<open>error\<close> value. What the classes call but do not define (Node's
  \<open>path\<close> and \<open>fs\<close>, \<open>uuid\<close>, \<open>JSON.parse\<close>, the Azure client) is modelled as far as the
  classes use it.
\<close>

section \<open>The path functions of the host platform\<close>

text \<open>
  Node's \<open>path\<close> module, read at the level of path segments. \<open>normalizeString\<close> walks the
  segments between separators: an empty segment and \<open>.\<close> are skipped, \<open>..\<close> removes the
  last kept segment (or is kept itself when the path is relative and nothing is left to
  remove), any other segment is kept. \<open>normalize\<close>, \<open>join\<close>, \<open>resolve\<close> and \<open>relative\<close> are
  built on it as in Node. \<open>resolve\<close> and \<open>relative\<close> are the POSIX ones (the reporter is
  modelled on a POSIX host); \<open>normalize\<close>, \<open>join\<close> and \<open>extname\<close> also take the Windows
  separators, for the remote paths of the uploader.

  The \<open>Posix\<close> functions are Node's on every string. The \<open>Win32\<close> functions are Node's on
  the paths that have no Windows root and no colon: \<open>path.win32\<close> reads a leading separator
  pair as a UNC root and a letter followed by a colon as a drive, and prefixes \<open>.\<close> and a
  backslash to a relative result when a colon of the path is followed by a separator or ends
  the path; none of this is modelled. What is stated about \<open>Win32\<close> below is therefore
  stated for path segments without separators and without a colon (\<open>portable\<close>), joined
  into a path that starts with such a segment.
\<close>

datatype platform = Posix | Win32

definition backslash :: char where
  "backslash = CHR 0x5C"

fun isPathSeparator :: "platform \<Rightarrow> char \<Rightarrow> bool" where
  "isPathSeparator Posix c = (c = CHR ''/'')"
| "isPathSeparator Win32 c = (c = CHR ''/'' \<or> c = backslash)"

fun sep :: "platform \<Rightarrow> char" where
  "sep Posix = CHR ''/''"
| "sep Win32 = backslash"

fun split_on :: "(char \<Rightarrow> bool) \<Rightarrow> string \<Rightarrow> string list" where
  "split_on P [] = [[]]"
| "split_on P (c # cs) =
     (if P c then [] # split_on P cs
      else (case split_on P cs of [] \<Rightarrow> [[c]] | s # ss \<Rightarrow> (c # s) # ss))"

fun join_with :: "char \<Rightarrow> string list \<Rightarrow> string" where
  "join_with c [] = []"
| "join_with c [s] = s"
| "join_with c (s # t # ss) = s @ c # join_with c (t # ss)"

definition normalize_step :: "bool \<Rightarrow> string list \<Rightarrow> string \<Rightarrow> string list" where
  "normalize_step allowAboveRoot res seg =
     (if seg = [] \<or> seg = ''.'' then res
      else if seg = ''..'' then
        (if res \<noteq> [] \<and> last res \<noteq> ''..'' then butlast res
         else if allowAboveRoot then res @ [''..''] else res)
      else res @ [seg])"

definition normalize_segments :: "bool \<Rightarrow> string list \<Rightarrow> string list" where
  "normalize_segments allowAboveRoot segs = foldl (normalize_step allowAboveRoot) [] segs"

definition normalizeString :: "platform \<Rightarrow> string \<Rightarrow> bool \<Rightarrow> string" where
  "normalizeString pf path allowAboveRoot =
     join_with (sep pf) (normalize_segments allowAboveRoot (split_on (isPathSeparator pf) path))"

definition path_normalize :: "platform \<Rightarrow> string \<Rightarrow> string" where
  "path_normalize pf path =
     (if path = [] then ''.''
      else
        let isAbsolute = isPathSeparator pf (hd path);
            trailingSeparator = isPathSeparator pf (last path);
            p = normalizeString pf path (\<not> isAbsolute)
        in if p = [] then
             (if isAbsolute then [sep pf]
              else if trailingSeparator then [CHR ''.'', sep pf] else ''.'')
           else (if isAbsolute then [sep pf] else []) @ p
                @ (if trailingSeparator then [sep pf] else []))"

definition path_join :: "platform \<Rightarrow> string list \<Rightarrow> string" where
  "path_join pf args =
     (let parts = filter (\<lambda>arg. arg \<noteq> []) args
      in if parts = [] then ''.'' else path_normalize pf (join_with (sep pf) parts))"

fun resolve_loop :: "string list \<Rightarrow> string \<Rightarrow> string \<times> bool" where
  "resolve_loop [] resolvedPath = (resolvedPath, False)"
| "resolve_loop (path # rest) resolvedPath =
     (if path = [] then resolve_loop rest resolvedPath
      else if hd path = CHR ''/'' then (path @ ''/'' @ resolvedPath, True)
      else resolve_loop rest (path @ ''/'' @ resolvedPath))"

definition path_resolve :: "string \<Rightarrow> string list \<Rightarrow> string" where
  "path_resolve cwd args =
     (case resolve_loop (rev args @ [cwd]) [] of
        (resolvedPath, resolvedAbsolute) \<Rightarrow>
          let p = normalizeString Posix resolvedPath (\<not> resolvedAbsolute)
          in if resolvedAbsolute then CHR ''/'' # p
             else if p \<noteq> [] then p else ''.'')"

definition segments :: "string \<Rightarrow> string list" where
  "segments p = filter (\<lambda>s. s \<noteq> []) (split_on (isPathSeparator Posix) p)"

fun strip_common :: "string list \<Rightarrow> string list \<Rightarrow> string list \<times> string list" where
  "strip_common [] ys = ([], ys)"
| "strip_common (x # xs) [] = (x # xs, [])"
| "strip_common (x # xs) (y # ys) = (if x = y then strip_common xs ys else (x # xs, y # ys))"

definition path_relative :: "string \<Rightarrow> string \<Rightarrow> string \<Rightarrow> string" where
  "path_relative cwd from to =
     (if from = to then []
      else
        let f = path_resolve cwd [from]; t = path_resolve cwd [to]
        in if f = t then []
           else (case strip_common (segments f) (segments t) of
                   (fs, ts) \<Rightarrow> join_with (CHR ''/'') (replicate (length fs) ''..'' @ ts)))"

text \<open>
  \<open>path.extname\<close>: the part of the last path component from its last dot on; empty when
  the component has no dot, when its only dot is its first character, and for \<open>..\<close>.
\<close>

definition ext_of :: "string \<Rightarrow> string" where
  "ext_of base =
     (let r = rev base;
          suffix = takeWhile (\<lambda>c. c \<noteq> CHR ''.'') r;
          rest = dropWhile (\<lambda>c. c \<noteq> CHR ''.'') r
      in if rest = [] then []
         else if tl rest = [] then []
         else if base = ''..'' then []
         else CHR ''.'' # rev suffix)"

definition path_extname :: "platform \<Rightarrow> string \<Rightarrow> string" where
  "path_extname pf path =
     (let comps = filter (\<lambda>s. s \<noteq> []) (split_on (isPathSeparator pf) path)
      in if comps = [] then [] else ext_of (last comps))"

definition toLowerChar :: "char \<Rightarrow> char" where
  "toLowerChar c =
     (case map_of (zip ''ABCDEFGHIJKLMNOPQRSTUVWXYZ'' ''abcdefghijklmnopqrstuvwxyz'') c of
        None \<Rightarrow> c
      | Some l \<Rightarrow> l)"

definition toLowerCase :: "string \<Rightarrow> string" where
  "toLowerCase s = map toLowerChar s"


section \<open>The file system\<close>

text \<open>
  The file system is a tree of files and directories (no links or special files); a
  directory lists its entries by name, in listing order. A path is looked up from the
  root along its segments. The \<open>fs\<close> calls resolve their path argument against the
  working directory and either fail with an error or return the new file system.
\<close>

datatype error = Error (err_message: string)

datatype node = File string | Dir "(string \<times> node) list"

fun fs_lookup :: "node \<Rightarrow> string list \<Rightarrow> node option" where
  "fs_lookup n [] = Some n"
| "fs_lookup (File c) (s # ss) = None"
| "fs_lookup (Dir es) (s # ss) =
     (case map_of es s of None \<Rightarrow> None | Some ch \<Rightarrow> fs_lookup ch ss)"

fun mkdir_p :: "string list \<Rightarrow> node \<Rightarrow> error + node" where
  "mkdir_p [] (Dir es) = Inr (Dir es)"
| "mkdir_p [] (File c) = Inl (Error ''EEXIST'')"
| "mkdir_p (s # ss) (File c) = Inl (Error ''ENOTDIR'')"
| "mkdir_p (s # ss) (Dir es) =
     (case map_of es s of
        None \<Rightarrow>
          (case mkdir_p ss (Dir []) of
             Inl e \<Rightarrow> Inl e
           | Inr ch \<Rightarrow> Inr (Dir (es @ [(s, ch)])))
      | Some ch \<Rightarrow>
          (case mkdir_p ss ch of
             Inl e \<Rightarrow> Inl e
           | Inr ch' \<Rightarrow> Inr (Dir (AList.update s ch' es))))"

fun remove_at :: "string list \<Rightarrow> node \<Rightarrow> error + node" where
  "remove_at [] n = Inl (Error ''EBUSY'')"
| "remove_at (s # ss) (File c) = Inl (Error ''ENOTDIR'')"
| "remove_at (s # ss) (Dir es) =
     (case map_of es s of
        None \<Rightarrow> Inl (Error ''ENOENT'')
      | Some ch \<Rightarrow>
          if ss = [] then Inr (Dir (AList.delete s es))
          else (case remove_at ss ch of
                  Inl e \<Rightarrow> Inl e
                | Inr ch' \<Rightarrow> Inr (Dir (AList.update s ch' es))))"

fun put_file :: "string list \<Rightarrow> string \<Rightarrow> node \<Rightarrow> error + node" where
  "put_file [] content n = Inl (Error ''EISDIR'')"
| "put_file (s # ss) content (File c) = Inl (Error ''ENOTDIR'')"
| "put_file (s # ss) content (Dir es) =
     (if ss = [] then
        (case map_of es s of
           Some (Dir sub) \<Rightarrow> Inl (Error ''EISDIR'')
         | _ \<Rightarrow> Inr (Dir (AList.update s (File content) es)))
      else
        (case map_of es s of
           None \<Rightarrow> Inl (Error ''ENOENT'')
         | Some ch \<Rightarrow>
             (case put_file ss content ch of
                Inl e \<Rightarrow> Inl e
              | Inr ch' \<Rightarrow> Inr (Dir (AList.update s ch' es)))))"

text \<open>
  The world outside the reporter. \<open>uuid_source\<close> and \<open>uuid_next\<close> stand for the \<open>uuid\<close>
  generator: the \<open>n\<close>-th call of \<open>uuidv4\<close> returns \<open>uuid_source n\<close>. \<open>remote\<close> records the
  calls made to the Azure client, in order.
\<close>

datatype remote_call =
    FromConnectionString string
  | CreateIfNotExists string
  | UploadData string string string

record world =
  fs :: node
  cwd :: string
  now :: nat
  uuid_source :: "nat \<Rightarrow> string"
  uuid_next :: nat
  console :: "string list"
  remote :: "remote_call list"

definition abs_segments :: "string \<Rightarrow> string \<Rightarrow> string list" where
  "abs_segments c p =
     normalize_segments False
       (split_on (isPathSeparator Posix) (if p \<noteq> [] \<and> hd p = CHR ''/'' then p else c @ ''/'' @ p))"

definition console_log :: "string \<Rightarrow> world \<Rightarrow> world" where
  "console_log msg w = w\<lparr>console := console w @ [msg]\<rparr>"

definition uuidv4 :: "world \<Rightarrow> string \<times> world" where
  "uuidv4 w = (uuid_source w (uuid_next w), w\<lparr>uuid_next := uuid_next w + 1\<rparr>)"

definition existsSync :: "world \<Rightarrow> string \<Rightarrow> bool" where
  "existsSync w p = (fs_lookup (fs w) (abs_segments (cwd w) p) \<noteq> None)"

definition mkdirSync_recursive :: "world \<Rightarrow> string \<Rightarrow> error + world" where
  "mkdirSync_recursive w p =
     (case mkdir_p (abs_segments (cwd w) p) (fs w) of
        Inl e \<Rightarrow> Inl e
      | Inr n \<Rightarrow> Inr (w\<lparr>fs := n\<rparr>))"

definition readdirSync :: "world \<Rightarrow> string \<Rightarrow> error + string list" where
  "readdirSync w p =
     (case fs_lookup (fs w) (abs_segments (cwd w) p) of
        None \<Rightarrow> Inl (Error ''ENOENT'')
      | Some (File c) \<Rightarrow> Inl (Error ''ENOTDIR'')
      | Some (Dir es) \<Rightarrow> Inr (map fst es))"

definition lstatSync_isDirectory :: "world \<Rightarrow> string \<Rightarrow> error + bool" where
  "lstatSync_isDirectory w p =
     (case fs_lookup (fs w) (abs_segments (cwd w) p) of
        None \<Rightarrow> Inl (Error ''ENOENT'')
      | Some (File c) \<Rightarrow> Inr False
      | Some (Dir es) \<Rightarrow> Inr True)"

definition rmdirSync_recursive :: "world \<Rightarrow> string \<Rightarrow> error + world" where
  "rmdirSync_recursive w p =
     (case fs_lookup (fs w) (abs_segments (cwd w) p) of
        None \<Rightarrow> Inl (Error ''ENOENT'')
      | Some (File c) \<Rightarrow> Inl (Error ''ENOTDIR'')
      | Some (Dir es) \<Rightarrow>
          (case remove_at (abs_segments (cwd w) p) (fs w) of
             Inl e \<Rightarrow> Inl e
           | Inr n \<Rightarrow> Inr (w\<lparr>fs := n\<rparr>)))"

definition unlinkSync :: "world \<Rightarrow> string \<Rightarrow> error + world" where
  "unlinkSync w p =
     (case fs_lookup (fs w) (abs_segments (cwd w) p) of
        None \<Rightarrow> Inl (Error ''ENOENT'')
      | Some (Dir es) \<Rightarrow> Inl (Error ''EISDIR'')
      | Some (File c) \<Rightarrow>
          (case remove_at (abs_segments (cwd w) p) (fs w) of
             Inl e \<Rightarrow> Inl e
           | Inr n \<Rightarrow> Inr (w\<lparr>fs := n\<rparr>)))"

definition readFileSync :: "world \<Rightarrow> string \<Rightarrow> error + string" where
  "readFileSync w p =
     (case fs_lookup (fs w) (abs_segments (cwd w) p) of
        None \<Rightarrow> Inl (Error ''ENOENT'')
      | Some (Dir es) \<Rightarrow> Inl (Error ''EISDIR'')
      | Some (File c) \<Rightarrow> Inr c)"

definition copyFileSync :: "world \<Rightarrow> string \<Rightarrow> string \<Rightarrow> error + world" where
  "copyFileSync w src dest =
     (case readFileSync w src of
        Inl e \<Rightarrow> Inl e
      | Inr content \<Rightarrow>
          (case put_file (abs_segments (cwd w) dest) content (fs w) of
             Inl e \<Rightarrow> Inl e
           | Inr n \<Rightarrow> Inr (w\<lparr>fs := n\<rparr>)))"


section \<open>The reporter's data\<close>

text \<open>
  The data Playwright hands to a reporter. \<open>TestResult.status\<close> is Playwright's union of
  the five literals \<open>passed\<close>, \<open>failed\<close>, \<open>timedOut\<close>, \<open>skipped\<close> and \<open>interrupted\<close>. Fields
  the source reads through \<open>?.\<close> or tests for truthiness are options.
\<close>

datatype status = Passed | Failed | TimedOut | Skipped | Interrupted

record TestError =
  te_message :: "string option"
  te_stack :: "string option"

record Location =
  loc_file :: string
  loc_line :: nat

record TestAttachment =
  att_name :: string
  att_contentType :: string
  att_path :: "string option"
  att_body :: "string option"
  att_url :: "string option"

datatype TestStep =
  TestStep (step_title: string) (step_duration: int) (step_location: "Location option")
    (step_steps: "TestStep list option") (step_error: "TestError option")

datatype StepDetails =
  StepDetails (sd_name: string) (sd_duration: int) (sd_location: string)
    (sd_steps: "StepDetails list") (sd_error: bool)

datatype Suite = Suite (suite_title: string) (suite_parent: "Suite option")

record Annotation =
  ann_type :: string
  ann_description :: "string option"

record TestCase =
  tc_title :: string
  tc_location :: "Location option"
  tc_annotations :: "Annotation list"
  tc_retries :: nat
  tc_expectedStatus :: status
  tc_id :: string
  tc_parent :: "Suite option"

record TestResult =
  tr_status :: status
  tr_duration :: int
  tr_errors :: "TestError list"
  tr_retry :: nat
  tr_parallelIndex :: nat
  tr_startTime :: nat
  tr_workerIndex :: int
  tr_error :: "TestError option"
  tr_attachments :: "TestAttachment list"
  tr_steps :: "TestStep list option"

record Viewport =
  width :: nat
  height :: nat

record ProjectUse =
  use_headless :: "bool option"
  use_viewport :: "Viewport option"
  use_isMobile :: "bool option"
  use_hasTouch :: "bool option"

record Project =
  proj_name :: string
  proj_use :: ProjectUse

record FullConfig =
  projects :: "Project list"

record BrowserContext =
  bc_name :: string
  bc_headless :: bool
  bc_viewport :: Viewport
  bc_isMobile :: bool
  bc_hasTouch :: bool

text \<open>
  \<open>this.browserInfo\<close> starts as the object literal \<open>{}\<close> and is read and written by
  property name: it is a plain JavaScript object. Its own properties are contexts. Its
  prototype is \<open>Object.prototype\<close> (\<open>None\<close>) until a context is assigned to the name
  \<open>__proto__\<close>, which does not create a property but makes that context object the
  prototype, in front of \<open>Object.prototype\<close>. A \<open>browser_value\<close> is what reading a property
  of that object, followed by \<open>|| {}\<close>, can give: the empty object, a context, a field of
  a context, a built-in function of \<open>Object.prototype\<close> (by its name), or
  \<open>Object.prototype\<close> itself.
\<close>

datatype browser_value =
    EmptyObject
  | ContextObject BrowserContext
  | ViewportObject Viewport
  | StringValue string
  | BooleanValue bool
  | BuiltinFunction string
  | ObjectPrototype

record plain_object =
  own_properties :: "string \<rightharpoonup> BrowserContext"
  prototype :: "BrowserContext option"

record TestInfo =
  ti_title :: string
  ti_location :: string
  ti_tags :: "string list"
  ti_retries :: nat
  ti_expectedStatus :: status
  ti_fileName :: "string option"
  ti_suiteTitle :: "string option"
  ti_testId :: string

record ReportEntry =
  re_test :: TestInfo
  re_steps :: "StepDetails list"
  re_attachments :: "TestAttachment list"
  re_status :: status
  re_duration :: int
  re_errors :: "TestError list"
  re_retry :: nat
  re_parallelIndex :: nat
  re_startTime :: nat
  re_workerIndex :: int
  re_error :: "TestError option"
  re_browser :: browser_value

record AzureBlobStorageOptions =
  containerName :: "string option"
  connectionString :: "string option"

record Uploaders =
  azureBlobStorage :: "AzureBlobStorageOptions option"

record ChalishaReporterOptions =
  opt_reportDir :: "string option"
  opt_reportFileName :: "string option"
  opt_resultFileName :: "string option"
  opt_uploaders :: "Uploaders option"

record PackageJson =
  pkg_name :: "string option"

record ChalishaReporter =
  reportDir :: string
  runId :: string
  passedCount :: nat
  failedCount :: nat
  skippedCount :: nat
  timedOutCount :: nat
  interruptedCount :: nat
  totalTests :: nat
  startTime :: nat
  testResults :: "ReportEntry list"
  projectRoot :: string
  browserInfo :: plain_object
  reportFileName :: string
  resultFileName :: string
  options :: ChalishaReporterOptions
  hostAppPackageJson :: "PackageJson option"

record AzureBlobStorageUploader =
  up_containerName :: string
  up_localReportDir :: string
  up_connectionString :: string
  up_runId :: string
  up_appName :: string

text \<open>
  The behaviour of the external services: \<open>JSON.parse\<close> on the host's \<open>package.json\<close>
  (\<open>None\<close> for a falsy value), the construction of the Azure client from a connection
  string, and the two remote operations, each of which may fail.
\<close>

record env =
  JSON_parse :: "string \<Rightarrow> error + PackageJson option"
  fromConnectionString :: "string \<Rightarrow> error option"
  createIfNotExists :: "string \<Rightarrow> error option"
  uploadData :: "string \<Rightarrow> string \<Rightarrow> string \<Rightarrow> error option"

section \<open>The reporter\<close>

text \<open>
  JavaScript's \<open>a || b\<close> on an optional string and on an optional boolean.
\<close>

definition or_else :: "string option \<Rightarrow> string \<Rightarrow> string" where
  "or_else v d = (case v of None \<Rightarrow> d | Some s \<Rightarrow> if s = [] then d else s)"

definition truthy :: "bool option \<Rightarrow> bool" where
  "truthy v = (case v of None \<Rightarrow> False | Some b \<Rightarrow> b)"

fun digit_char :: "nat \<Rightarrow> char" where
  "digit_char n = (''0123456789'' ! (n mod 10))"

function show_nat :: "nat \<Rightarrow> string" where
  "show_nat n = (if n < 10 then [digit_char n] else show_nat (n div 10) @ [digit_char n])"
  by pat_completeness auto
termination
  by (relation "measure (\<lambda>n. n)") auto

declare show_nat.simps [simp del]

definition format_location :: "string \<Rightarrow> string \<Rightarrow> Location option \<Rightarrow> string" where
  "format_location c root loc =
     (case loc of
        None \<Rightarrow> []
      | Some l \<Rightarrow> path_relative c root (loc_file l) @ '':'' @ show_nat (loc_line l))"


text \<open>
  \<open>captureNestedSteps(steps, level = 0)\<close>. The arguments \<open>c\<close> and \<open>root\<close> are the working
  directory and \<open>this.projectRoot\<close>, which \<open>path.relative\<close> reads for the location.
\<close>

function captureNestedSteps ::
  "string \<Rightarrow> string \<Rightarrow> TestStep list option \<Rightarrow> int \<Rightarrow> StepDetails list" where
  "captureNestedSteps c root None level = []"
| "captureNestedSteps c root (Some steps) level =
     (if steps = [] \<or> level \<ge> 4 then []
      else map (\<lambda>step.
             StepDetails (step_title step) (step_duration step)
               (format_location c root (step_location step))
               (captureNestedSteps c root
                  (Some (case step_steps step of None \<Rightarrow> [] | Some ss \<Rightarrow> ss)) (level + 1))
               (step_error step \<noteq> None)) steps)"
  by pat_completeness auto
termination
proof (relation "measure (\<lambda>(c, root, steps, level). size_option (size_list size) steps)")
  show "wf (measure (\<lambda>(c, root, steps, level). size_option (size_list size) steps))"
    by simp
next
  fix c root :: string and steps :: "TestStep list" and level :: int and step :: TestStep
  assume "\<not> (steps = [] \<or> 4 \<le> level)" and mem: "step \<in> set steps"
  have "size step < Suc (size_list size steps)"
    using mem by (induction steps) auto
  moreover have "size_list size (case step_steps step of None \<Rightarrow> [] | Some ss \<Rightarrow> ss) < size step"
    by (cases step) (auto split: option.splits)
  ultimately show "((c, root, Some (case step_steps step of None \<Rightarrow> [] | Some ss \<Rightarrow> ss), level + 1),
                    (c, root, Some steps, level))
                   \<in> measure (\<lambda>(c, root, steps, level). size_option (size_list size) steps)"
    by simp
qed

declare captureNestedSteps.simps [simp del]

text \<open>
  Reading and writing a property of \<open>this.browserInfo\<close>. \<open>getProperty\<close> is \<open>obj[key]\<close>
  (\<open>None\<close> for \<open>undefined\<close>): the own property, else the field of that name of a context
  that was made the prototype, else the member of \<open>Object.prototype\<close> of that name; the
  accessor \<open>__proto__\<close> of \<open>Object.prototype\<close> returns the prototype. \<open>setProperty\<close> is
  \<open>obj[key] = c\<close> for a context object \<open>c\<close>: the accessor \<open>__proto__\<close> sets the prototype,
  any other key gets an own property (the members of \<open>Object.prototype\<close> and the fields of
  a context are writable data properties, so an assignment shadows them). \<open>or_empty_object\<close>
  is \<open>v || {}\<close>: \<open>undefined\<close>, \<open>false\<close> and the empty string are falsy, every object and
  function is truthy.
\<close>

definition empty_object :: plain_object where
  "empty_object = \<lparr>own_properties = Map.empty, prototype = None\<rparr>"

definition Object_prototype_functions :: "string list" where
  "Object_prototype_functions =
     [''constructor'', ''__defineGetter__'', ''__defineSetter__'', ''hasOwnProperty'',
      ''__lookupGetter__'', ''__lookupSetter__'', ''isPrototypeOf'', ''propertyIsEnumerable'',
      ''toString'', ''valueOf'', ''toLocaleString'']"

definition contextProperty :: "BrowserContext \<Rightarrow> string \<Rightarrow> browser_value option" where
  "contextProperty c key =
     (if key = ''name'' then Some (StringValue (bc_name c))
      else if key = ''headless'' then Some (BooleanValue (bc_headless c))
      else if key = ''viewport'' then Some (ViewportObject (bc_viewport c))
      else if key = ''isMobile'' then Some (BooleanValue (bc_isMobile c))
      else if key = ''hasTouch'' then Some (BooleanValue (bc_hasTouch c))
      else None)"

definition Object_prototype_property :: "plain_object \<Rightarrow> string \<Rightarrow> browser_value option" where
  "Object_prototype_property obj key =
     (if key = ''__proto__'' then
        Some (case prototype obj of None \<Rightarrow> ObjectPrototype | Some c \<Rightarrow> ContextObject c)
      else if key \<in> set Object_prototype_functions then Some (BuiltinFunction key)
      else None)"

definition getProperty :: "plain_object \<Rightarrow> string \<Rightarrow> browser_value option" where
  "getProperty obj key =
     (case own_properties obj key of
        Some c \<Rightarrow> Some (ContextObject c)
      | None \<Rightarrow>
          (case prototype obj of
             None \<Rightarrow> Object_prototype_property obj key
           | Some c \<Rightarrow>
               (case contextProperty c key of
                  Some v \<Rightarrow> Some v
                | None \<Rightarrow> Object_prototype_property obj key)))"

definition setProperty :: "plain_object \<Rightarrow> string \<Rightarrow> BrowserContext \<Rightarrow> plain_object" where
  "setProperty obj key c =
     (if key = ''__proto__'' then obj\<lparr>prototype := Some c\<rparr>
      else obj\<lparr>own_properties := (own_properties obj)(key \<mapsto> c)\<rparr>)"

fun truthy_value :: "browser_value \<Rightarrow> bool" where
  "truthy_value (StringValue s) = (s \<noteq> [])"
| "truthy_value (BooleanValue b) = b"
| "truthy_value EmptyObject = True"
| "truthy_value (ContextObject c) = True"
| "truthy_value (ViewportObject v) = True"
| "truthy_value (BuiltinFunction name) = True"
| "truthy_value ObjectPrototype = True"

definition or_empty_object :: "browser_value option \<Rightarrow> browser_value" where
  "or_empty_object v =
     (case v of
        None \<Rightarrow> EmptyObject
      | Some x \<Rightarrow> if truthy_value x then x else EmptyObject)"

text \<open>
  \<open>onBegin\<close>: the object stored for one project, and the loop over \<open>config.projects\<close>.
\<close>

definition resolveBrowser :: "Project \<Rightarrow> BrowserContext" where
  "resolveBrowser project =
     \<lparr>bc_name = (if proj_name project = [] then ''unknown'' else proj_name project),
      bc_headless = truthy (use_headless (proj_use project)),
      bc_viewport = (case use_viewport (proj_use project) of
                       None \<Rightarrow> \<lparr>width = 1280, height = 720\<rparr>
                     | Some v \<Rightarrow> v),
      bc_isMobile = truthy (use_isMobile (proj_use project)),
      bc_hasTouch = truthy (use_hasTouch (proj_use project))\<rparr>"

definition onBegin :: "ChalishaReporter \<Rightarrow> FullConfig \<Rightarrow> TestCase list \<Rightarrow> ChalishaReporter" where
  "onBegin r config allTests =
     foldl (\<lambda>this project.
              this\<lparr>browserInfo :=
                     setProperty (browserInfo this) (proj_name project) (resolveBrowser project)\<rparr>)
       (r\<lparr>totalTests := length allTests\<rparr>) (projects config)"

text \<open>
  \<open>onTestEnd\<close>. \<open>updateAttachment\<close> is the callback of \<open>result.attachments.map\<close> and
  \<open>updatedAttachments\<close> the map itself, left to right; a failing \<open>mkdirSync\<close> or
  \<open>copyFileSync\<close> throws out of \<open>onTestEnd\<close>, and what was done before stays done.
\<close>

definition updateAttachment ::
  "ChalishaReporter \<Rightarrow> TestAttachment \<Rightarrow> world \<Rightarrow> (error + TestAttachment) \<times> world" where
  "updateAttachment r attachment w =
     (case att_path attachment of
        None \<Rightarrow> (Inr attachment, w)
      | Some p \<Rightarrow>
          if p = [] then (Inr attachment, w)
          else
            (let fileExtension = path_extname Posix p in
             case uuidv4 w of
               (uuid, w1) \<Rightarrow>
                 let newFileName = uuid @ fileExtension;
                     outputDir = path_resolve (cwd w1) [projectRoot r, reportDir r, ''data'']
                 in case (if \<not> existsSync w1 outputDir then mkdirSync_recursive w1 outputDir
                          else Inr w1) of
                      Inl e \<Rightarrow> (Inl e, w1)
                    | Inr w2 \<Rightarrow>
                        let newFilePath = path_join Posix [reportDir r, ''data'', newFileName]
                        in case copyFileSync w2 p newFilePath of
                             Inl e \<Rightarrow> (Inl e, w2)
                           | Inr w3 \<Rightarrow>
                               (Inr (attachment\<lparr>att_path := Some newFilePath,
                                       att_url := Some (''./'' @ path_relative (cwd w3)
                                                          (projectRoot r) newFilePath)\<rparr>),
                                w3)))"

fun updatedAttachments ::
  "ChalishaReporter \<Rightarrow> TestAttachment list \<Rightarrow> world \<Rightarrow> (error + TestAttachment list) \<times> world" where
  "updatedAttachments r [] w = (Inr [], w)"
| "updatedAttachments r (attachment # rest) w =
     (case updateAttachment r attachment w of
        (Inl e, w') \<Rightarrow> (Inl e, w')
      | (Inr a, w') \<Rightarrow>
          (case updatedAttachments r rest w' of
             (Inl e, w'') \<Rightarrow> (Inl e, w'')
           | (Inr as, w'') \<Rightarrow> (Inr (a # as), w'')))"

definition countStatus :: "status \<Rightarrow> ChalishaReporter \<Rightarrow> ChalishaReporter" where
  "countStatus st r =
     (case st of
        Passed \<Rightarrow> r\<lparr>passedCount := passedCount r + 1\<rparr>
      | Failed \<Rightarrow> r\<lparr>failedCount := failedCount r + 1\<rparr>
      | Skipped \<Rightarrow> r\<lparr>skippedCount := skippedCount r + 1\<rparr>
      | TimedOut \<Rightarrow> r\<lparr>timedOutCount := timedOutCount r + 1\<rparr>
      | Interrupted \<Rightarrow> r\<lparr>interruptedCount := interruptedCount r + 1\<rparr>)"

definition browserName_of :: "TestCase \<Rightarrow> string" where
  "browserName_of test =
     or_else (case tc_parent test of
                None \<Rightarrow> None
              | Some s \<Rightarrow> (case suite_parent s of None \<Rightarrow> None | Some g \<Rightarrow> Some (suite_title g)))
       ''unknown''"

definition testInfo_of :: "ChalishaReporter \<Rightarrow> TestCase \<Rightarrow> world \<Rightarrow> TestInfo" where
  "testInfo_of r test w =
     \<lparr>ti_title = tc_title test,
      ti_location = format_location (cwd w) (projectRoot r) (tc_location test),
      ti_tags = map ann_type (tc_annotations test),
      ti_retries = tc_retries test,
      ti_expectedStatus = tc_expectedStatus test,
      ti_fileName = map_option loc_file (tc_location test),
      ti_suiteTitle = map_option suite_title (tc_parent test),
      ti_testId = tc_id test\<rparr>"

definition onTestEnd ::
  "ChalishaReporter \<Rightarrow> TestCase \<Rightarrow> TestResult \<Rightarrow> world
     \<Rightarrow> (error option \<times> ChalishaReporter) \<times> world" where
  "onTestEnd r test result w =
     (let this = countStatus (tr_status result) r;
          browserName = browserName_of test;
          browser = or_empty_object (getProperty (browserInfo this) browserName);
          testInfo = testInfo_of this test w
      in case updatedAttachments this (tr_attachments result) w of
           (Inl e, w') \<Rightarrow> ((Some e, this), w')
         | (Inr attachments, w') \<Rightarrow>
             let steps = captureNestedSteps (cwd w') (projectRoot this) (tr_steps result) 0
             in ((None,
                  this\<lparr>testResults := testResults this @
                    [\<lparr>re_test = testInfo, re_steps = steps, re_attachments = attachments,
                      re_status = tr_status result, re_duration = tr_duration result,
                      re_errors = tr_errors result, re_retry = tr_retry result,
                      re_parallelIndex = tr_parallelIndex result,
                      re_startTime = tr_startTime result,
                      re_workerIndex = tr_workerIndex result, re_error = tr_error result,
                      re_browser = browser\<rparr>]\<rparr>),
                 w'))"

text \<open>
  The host runner delivers the test-end events one after the other; an error thrown by
  the callback does not undo what the callback had already changed.
\<close>

fun deliver_test_ends ::
  "(TestCase \<times> TestResult) list \<Rightarrow> ChalishaReporter \<Rightarrow> world \<Rightarrow> ChalishaReporter \<times> world" where
  "deliver_test_ends [] r w = (r, w)"
| "deliver_test_ends ((test, result) # events) r w =
     (case onTestEnd r test result w of
        ((thrown, r'), w') \<Rightarrow> deliver_test_ends events r' w')"

text \<open>
  The constructor, with \<open>getHostAppPackageJson\<close> and \<open>cleanDirectory\<close>.
  \<open>cleanDirectory_each\<close> is the body of the \<open>forEach\<close> over the listing.
\<close>

definition getHostAppPackageJson :: "env \<Rightarrow> world \<Rightarrow> PackageJson option \<times> world" where
  "getHostAppPackageJson ev w =
     (case readFileSync w (path_join Posix [cwd w, ''package.json'']) of
        Inl e \<Rightarrow>
          (None,
           console_log (''Error finding or reading the main application's package.json: ''
                        @ err_message e) w)
      | Inr content \<Rightarrow>
          (case JSON_parse ev content of
             Inl e \<Rightarrow>
               (None,
                console_log (''Error finding or reading the main application's package.json: ''
                             @ err_message e) w)
           | Inr packageJson \<Rightarrow> (packageJson, w)))"

fun cleanDirectory_each :: "string \<Rightarrow> string list \<Rightarrow> world \<Rightarrow> error option \<times> world" where
  "cleanDirectory_each directoryPath [] w = (None, w)"
| "cleanDirectory_each directoryPath (file # files) w =
     (let fullPath = path_join Posix [directoryPath, file]
      in case lstatSync_isDirectory w fullPath of
           Inl e \<Rightarrow> (Some e, w)
         | Inr isDir \<Rightarrow>
             (case (if isDir then rmdirSync_recursive w fullPath else unlinkSync w fullPath) of
                Inl e \<Rightarrow> (Some e, w)
              | Inr w' \<Rightarrow> cleanDirectory_each directoryPath files w'))"

definition cleanDirectory :: "string \<Rightarrow> world \<Rightarrow> error option \<times> world" where
  "cleanDirectory directoryPath w =
     (case readdirSync w directoryPath of
        Inl e \<Rightarrow> (Some e, w)
      | Inr files \<Rightarrow>
          (case cleanDirectory_each directoryPath files w of
             (Some e, w') \<Rightarrow> (Some e, w')
           | (None, w') \<Rightarrow>
               (None, console_log (''Cleaned output directory: '' @ directoryPath) w')))"

definition new_ChalishaReporter ::
  "env \<Rightarrow> ChalishaReporterOptions \<Rightarrow> world \<Rightarrow> (error + ChalishaReporter) \<times> world" where
  "new_ChalishaReporter ev opts w =
     (case uuidv4 w of
        (uuid, w1) \<Rightarrow>
          (case getHostAppPackageJson ev w1 of
             (pkg, w2) \<Rightarrow>
               let this =
                     \<lparr>reportDir = or_else (opt_reportDir opts) ''reports/chalisha-reporter/'',
                      runId = uuid,
                      passedCount = 0, failedCount = 0, skippedCount = 0, timedOutCount = 0,
                      interruptedCount = 0, totalTests = 0,
                      startTime = now w1,
                      testResults = [],
                      projectRoot = cwd w,
                      browserInfo = empty_object,
                      reportFileName = or_else (opt_reportFileName opts) ''report.json'',
                      resultFileName = or_else (opt_resultFileName opts) ''result.json'',
                      options = opts,
                      hostAppPackageJson = pkg\<rparr>;
                   outputDir = path_resolve (cwd w2) [projectRoot this, reportDir this]
               in if \<not> existsSync w2 outputDir then
                    (case mkdirSync_recursive w2 outputDir of
                       Inl e \<Rightarrow> (Inl e, w2)
                     | Inr w3 \<Rightarrow> (Inr this, w3))
                  else
                    (case cleanDirectory outputDir w2 of
                       (Some e, w3) \<Rightarrow> (Inl e, w3)
                     | (None, w3) \<Rightarrow> (Inr this, w3))))"

section \<open>The uploader\<close>

text \<open>
  \<open>AzureBlobStorageUploader\<close>. \<open>uploadDirectoryToBlobStorage\<close> is given the directory that
  \<open>readdirSync(directoryPath)\<close> lists: the upload only reads the file system, so each
  recursive call finds under \<open>path.join(directoryPath, file.name)\<close> the entry of that name.
  \<open>uploadFiles\<close> is the \<open>for\<close> loop over the listing. \<open>uploadPlaywrightReport_body\<close> is the
  \<open>try\<close> block of \<open>uploadPlaywrightReport\<close>.
\<close>

definition new_AzureBlobStorageUploader ::
  "env \<Rightarrow> string \<Rightarrow> string \<Rightarrow> string \<Rightarrow> string \<Rightarrow> string \<Rightarrow> world
     \<Rightarrow> (error + AzureBlobStorageUploader) \<times> world" where
  "new_AzureBlobStorageUploader ev runId' appName containerName' connectionString' reportDir' w =
     (let this = \<lparr>up_containerName = containerName',
                  up_localReportDir = path_resolve (cwd w) [cwd w, reportDir'],
                  up_connectionString = connectionString',
                  up_runId = runId',
                  up_appName = appName\<rparr>
      in if connectionString' = [] then
           (Inl (Error ''Azure Storage connection string is missing!''), w)
         else
           (case fromConnectionString ev connectionString' of
              Some e \<Rightarrow> (Inl e, w\<lparr>remote := remote w @ [FromConnectionString connectionString']\<rparr>)
            | None \<Rightarrow> (Inr this, w\<lparr>remote := remote w @ [FromConnectionString connectionString']\<rparr>)))"

definition getContentType :: "platform \<Rightarrow> string \<Rightarrow> string" where
  "getContentType pf fileName =
     (let extension = toLowerCase (path_extname pf fileName)
      in if extension = ''.html'' then ''text/html''
         else if extension = ''.json'' then ''application/json''
         else if extension = ''.txt'' then ''text/plain''
         else if extension = ''.png'' then ''image/png''
         else if extension = ''.jpg'' \<or> extension = ''.jpeg'' then ''image/jpeg''
         else ''application/octet-stream'')"

definition replace_backslashes :: "string \<Rightarrow> string" where
  "replace_backslashes s = map (\<lambda>c. if c = backslash then CHR ''/'' else c) s"

fun uploadDirectoryToBlobStorage ::
      "env \<Rightarrow> platform \<Rightarrow> node \<Rightarrow> string \<Rightarrow> world \<Rightarrow> error option \<times> world"
  and uploadFiles ::
      "env \<Rightarrow> platform \<Rightarrow> (string \<times> node) list \<Rightarrow> string \<Rightarrow> world \<Rightarrow> error option \<times> world"
where
  "uploadDirectoryToBlobStorage ev pf (File c) remotePath w =
     (Some (Error ''ENOTDIR''), console_log (''uploadDirectoryToBlobStorage '' @ remotePath) w)"
| "uploadDirectoryToBlobStorage ev pf (Dir files) remotePath w =
     uploadFiles ev pf files remotePath (console_log (''uploadDirectoryToBlobStorage '' @ remotePath) w)"
| "uploadFiles ev pf [] remotePath w = (None, w)"
| "uploadFiles ev pf ((name, Dir sub) # files) remotePath w =
     (let blobPath = replace_backslashes (path_join pf [remotePath, name])
      in case uploadDirectoryToBlobStorage ev pf (Dir sub) blobPath w of
           (Some e, w') \<Rightarrow> (Some e, w')
         | (None, w') \<Rightarrow> uploadFiles ev pf files remotePath w')"
| "uploadFiles ev pf ((name, File fileContent) # files) remotePath w =
     (let blobPath = replace_backslashes (path_join pf [remotePath, name]);
          w1 = w\<lparr>remote := remote w @ [UploadData blobPath (getContentType pf name) fileContent]\<rparr>
      in case uploadData ev blobPath (getContentType pf name) fileContent of
           Some e \<Rightarrow> (Some e, w1)
         | None \<Rightarrow> uploadFiles ev pf files remotePath (console_log (''Uploaded: '' @ blobPath) w1))"

definition uploadPlaywrightReport_body ::
  "env \<Rightarrow> platform \<Rightarrow> AzureBlobStorageUploader \<Rightarrow> world \<Rightarrow> error option \<times> world" where
  "uploadPlaywrightReport_body ev pf this w =
     (let w1 = console_log (''Azure Storage Connection String: '' @ up_connectionString this) w;
          w2 = console_log (''Container Name: '' @ up_containerName this) w1;
          w3 = w2\<lparr>remote := remote w2 @ [CreateIfNotExists (up_containerName this)]\<rparr>
      in case createIfNotExists ev (up_containerName this) of
           Some e \<Rightarrow> (Some e, w3)
         | None \<Rightarrow>
             let w4 = console_log (''Container \"'' @ up_containerName this @ ''\" is ready.'') w3;
                 remotePath = ''chalisha-reporter/'' @ up_appName this @ ''/'' @ up_runId this;
                 w5 = console_log (''uploadDirectoryToBlobStorage '' @ remotePath) w4
             in case fs_lookup (fs w4) (abs_segments (cwd w4) (up_localReportDir this)) of
                  None \<Rightarrow> (Some (Error ''ENOENT''), w5)
                | Some n \<Rightarrow>
                    (case uploadDirectoryToBlobStorage ev pf n remotePath w4 of
                       (Some e, w6) \<Rightarrow> (Some e, w6)
                     | (None, w6) \<Rightarrow>
                         (None,
                          console_log (''All files and folders from \"'' @ up_localReportDir this
                                       @ ''\" have been uploaded to \"'' @ remotePath
                                       @ ''\" in Azure Blob Storage.'') w6)))"

definition uploadPlaywrightReport ::
  "env \<Rightarrow> platform \<Rightarrow> AzureBlobStorageUploader \<Rightarrow> world \<Rightarrow> (error + unit) \<times> world" where
  "uploadPlaywrightReport ev pf this w =
     (case uploadPlaywrightReport_body ev pf this w of
        (None, w') \<Rightarrow> (Inr (), w')
      | (Some e, w') \<Rightarrow>
          (Inr (),
           console_log (''Error uploading report to Azure Blob Storage: '' @ err_message e) w'))"

text \<open>
  \<open>onExit\<close>, with the two optional chains over \<open>this.options\<close> it reads.
\<close>

definition optional_connectionString :: "ChalishaReporterOptions \<Rightarrow> string option" where
  "optional_connectionString opts =
     (case opt_uploaders opts of
        None \<Rightarrow> None
      | Some u \<Rightarrow> (case azureBlobStorage u of None \<Rightarrow> None | Some a \<Rightarrow> connectionString a))"

definition optional_containerName :: "ChalishaReporterOptions \<Rightarrow> string option" where
  "optional_containerName opts =
     (case opt_uploaders opts of
        None \<Rightarrow> None
      | Some u \<Rightarrow> (case azureBlobStorage u of None \<Rightarrow> None | Some a \<Rightarrow> containerName a))"

definition onExit :: "env \<Rightarrow> platform \<Rightarrow> ChalishaReporter \<Rightarrow> world \<Rightarrow> (error + unit) \<times> world" where
  "onExit ev pf this w =
     (let azureConnectionString = or_else (optional_connectionString (options this)) [];
          azureContainerName = or_else (optional_containerName (options this)) ''reports''
      in if azureConnectionString \<noteq> [] then
           (case new_AzureBlobStorageUploader ev (runId this)
                   (or_else (case hostAppPackageJson this of None \<Rightarrow> None | Some pj \<Rightarrow> pkg_name pj) [])
                   azureContainerName azureConnectionString (reportDir this) w of
              (Inl e, w') \<Rightarrow> (Inl e, w')
            | (Inr azureUploader, w') \<Rightarrow>
                uploadPlaywrightReport ev pf azureUploader
                  (console_log ''Starting upload to Azure blob storage ...'' w'))
         else (Inr (), w))"

section \<open>Notions used in the statements\<close>

text \<open>
  The vocabulary of the theorems: the sum of the outcome counters; the levels of a step
  tree; valid entry names; the output directory; the local paths, file names and
  destinations of relocated attachments; what it means for a URL to be relative to a
  directory; the files of a directory tree with their relative paths and the remote
  calls a mirror makes; and a small example world the theorems are run on.
\<close>

definition counted :: "ChalishaReporter \<Rightarrow> nat" where
  "counted r = passedCount r + failedCount r + skippedCount r + timedOutCount r + interruptedCount r"

definition children :: "TestStep \<Rightarrow> TestStep list" where
  "children step = (case step_steps step of None \<Rightarrow> [] | Some ss \<Rightarrow> ss)"

fun steps_at :: "nat \<Rightarrow> TestStep list \<Rightarrow> TestStep list" where
  "steps_at 0 steps = steps"
| "steps_at (Suc k) steps = steps_at k (concat (map children steps))"

fun details_at :: "nat \<Rightarrow> StepDetails list \<Rightarrow> StepDetails list" where
  "details_at 0 ds = ds"
| "details_at (Suc k) ds = details_at k (concat (map sd_steps ds))"

definition summary_of :: "string \<Rightarrow> string \<Rightarrow> TestStep \<Rightarrow> string \<times> int \<times> string \<times> bool" where
  "summary_of c root step =
     (step_title step, step_duration step, format_location c root (step_location step),
      step_error step \<noteq> None)"

definition label_of :: "StepDetails \<Rightarrow> string \<times> int \<times> string \<times> bool" where
  "label_of d = (sd_name d, sd_duration d, sd_location d, sd_error d)"

definition plain :: "string \<Rightarrow> bool" where
  "plain s = (s \<noteq> [] \<and> s \<noteq> ''.'' \<and> s \<noteq> ''..'')"

definition valid_name :: "string \<Rightarrow> bool" where
  "valid_name s = (s \<noteq> [] \<and> s \<noteq> ''.'' \<and> s \<noteq> ''..'' \<and> CHR ''/'' \<notin> set s)"

definition outputDir_of :: "ChalishaReporterOptions \<Rightarrow> world \<Rightarrow> string list" where
  "outputDir_of opts w =
     abs_segments (cwd w)
       (path_resolve (cwd w) [cwd w, or_else (opt_reportDir opts) ''reports/chalisha-reporter/''])"

definition is_directory :: "node option \<Rightarrow> bool" where
  "is_directory n = (case n of None \<Rightarrow> False | Some (File c) \<Rightarrow> False | Some (Dir es) \<Rightarrow> True)"

definition demo_env :: env where
  "demo_env =
     \<lparr>JSON_parse = (\<lambda>s. Inr (Some \<lparr>pkg_name = Some s\<rparr>)),
      fromConnectionString = (\<lambda>s. None),
      createIfNotExists = (\<lambda>s. None),
      uploadData = (\<lambda>blobPath contentType content. None)\<rparr>"

definition demo_world :: world where
  "demo_world =
     \<lparr>fs = Dir [(''proj'',
                 Dir [(''package.json'', File ''demo-app''),
                      (''reports'',
                       Dir [(''chalisha-reporter'',
                             Dir [(''result.json'', File ''stale''),
                                  (''data'', Dir [(''old.png'', File ''old'')])])])]),
                (''tmp'', Dir [(''shot.png'', File ''PNG''), (''trace.zip'', File ''ZIP'')])],
      cwd = ''/proj'',
      now = 0,
      uuid_source = (\<lambda>n. if n = 0 then ''00000000-0000-4000-8000-000000000000''
                         else if n = 1 then ''11111111-1111-4111-8111-111111111111''
                         else ''22222222-2222-4222-8222-222222222222''),
      uuid_next = 0,
      console = [],
      remote = []\<rparr>"

definition demo_options :: ChalishaReporterOptions where
  "demo_options =
     \<lparr>opt_reportDir = None, opt_reportFileName = None, opt_resultFileName = None,
      opt_uploaders = None\<rparr>"

definition demo_steps :: "TestStep list" where
  "demo_steps =
     [TestStep ''level 0'' 60 (Some \<lparr>loc_file = ''/proj/tests/a.spec.ts'', loc_line = 12\<rparr>)
        (Some [TestStep ''level 1'' 50 None
           (Some [TestStep ''level 2'' 40 None
              (Some [TestStep ''level 3'' 30 None
                 (Some [TestStep ''level 4'' 20 None
                    (Some [TestStep ''level 5'' 10 None None None]) None]) None]) None])
           (Some \<lparr>te_message = Some ''boom'', te_stack = None\<rparr>)]) None]"

definition demo_reporter :: ChalishaReporter where
  "demo_reporter =
     \<lparr>reportDir = ''reports/chalisha-reporter/'',
      runId = ''00000000-0000-4000-8000-000000000000'',
      passedCount = 0, failedCount = 0, skippedCount = 0, timedOutCount = 0,
      interruptedCount = 0, totalTests = 0,
      startTime = 0,
      testResults = [],
      projectRoot = ''/proj'',
      browserInfo = empty_object,
      reportFileName = ''report.json'',
      resultFileName = ''result.json'',
      options = demo_options,
      hostAppPackageJson = Some \<lparr>pkg_name = Some ''demo-app''\<rparr>\<rparr>"

definition demo_config :: FullConfig where
  "demo_config =
     \<lparr>projects =
        [\<lparr>proj_name = ''chromium'',
          proj_use = \<lparr>use_headless = None, use_viewport = None, use_isMobile = None,
                      use_hasTouch = Some False\<rparr>\<rparr>,
         \<lparr>proj_name = ''phone'',
          proj_use = \<lparr>use_headless = Some True,
                      use_viewport = Some \<lparr>width = 390, height = 844\<rparr>,
                      use_isMobile = Some True, use_hasTouch = Some True\<rparr>\<rparr>]\<rparr>"

definition demo_test :: TestCase where
  "demo_test =
     \<lparr>tc_title = ''logs in'',
      tc_location = Some \<lparr>loc_file = ''/proj/tests/a.spec.ts'', loc_line = 7\<rparr>,
      tc_annotations = [],
      tc_retries = 0,
      tc_expectedStatus = Passed,
      tc_id = ''t1'',
      tc_parent = Some (Suite ''a.spec.ts'' (Some (Suite ''chromium'' None)))\<rparr>"

definition demo_result :: TestResult where
  "demo_result =
     \<lparr>tr_status = Passed, tr_duration = 60, tr_errors = [], tr_retry = 0,
      tr_parallelIndex = 0, tr_startTime = 0, tr_workerIndex = 0, tr_error = None,
      tr_attachments = [], tr_steps = Some demo_steps\<rparr>"

definition local_paths :: "TestAttachment list \<Rightarrow> string list" where
  "local_paths attachments =
     concat (map (\<lambda>a. case att_path a of None \<Rightarrow> [] | Some p \<Rightarrow> if p = [] then [] else [p])
               attachments)"

definition file_name_of :: "string \<Rightarrow> string" where
  "file_name_of p = last (split_on (isPathSeparator Posix) p)"

definition is_uuid :: "string \<Rightarrow> bool" where
  "is_uuid s = (length s = 36 \<and> set s \<subseteq> set ''0123456789abcdef-'')"

fun new_names :: "(nat \<Rightarrow> string) \<Rightarrow> nat \<Rightarrow> string list \<Rightarrow> string list" where
  "new_names src n [] = []"
| "new_names src n (p # ps) = (src n @ path_extname Posix p) # new_names src (Suc n) ps"

definition destinations :: "ChalishaReporter \<Rightarrow> world \<Rightarrow> TestAttachment list \<Rightarrow> string list list" where
  "destinations r w attachments =
     map (\<lambda>name. abs_segments (cwd w) (path_join Posix [reportDir r, ''data'', name]))
       (new_names (uuid_source w) (uuid_next w) (local_paths attachments))"

text \<open>
  The new path of the attachment at index \<open>i\<close> of a relocation call, when its local path
  is \<open>p\<close>: \<open>path.join(reportDir, 'data', uuid + extname(p))\<close>, where the identifier is the
  one drawn after those of the earlier attachments that have a local path.
\<close>

definition relocated_path ::
  "ChalishaReporter \<Rightarrow> world \<Rightarrow> TestAttachment list \<Rightarrow> nat \<Rightarrow> string \<Rightarrow> string" where
  "relocated_path r w attachments i p =
     path_join Posix
       [reportDir r, ''data'',
        uuid_source w (uuid_next w + length (local_paths (take i attachments)))
          @ path_extname Posix p]"

definition demo_attachment :: TestAttachment where
  "demo_attachment =
     \<lparr>att_name = ''screenshot'', att_contentType = ''image/png'',
      att_path = Some ''/tmp/shot.png'', att_body = None, att_url = None\<rparr>"

definition url_relative_to :: "string \<Rightarrow> string \<Rightarrow> string list \<Rightarrow> bool" where
  "url_relative_to base url target = (abs_segments base url = target)"









section \<open>Facts about paths\<close>

lemma split_on_not_Nil: "split_on P s \<noteq> []"
  by (induction s) (auto split: list.splits)

lemma split_on_append:
  "P c \<Longrightarrow> split_on P (a @ c # b) = split_on P a @ split_on P b"
proof (induction a)
  case Nil
  then show ?case by simp
next
  case (Cons x a)
  then show ?case
    using split_on_not_Nil [of P a] by (auto split: list.splits)
qed

lemma split_on_free: "\<forall>ch \<in> set s. \<not> P ch \<Longrightarrow> split_on P s = [s]"
  by (induction s) auto

lemma split_on_join:
  "P c \<Longrightarrow> segs \<noteq> [] \<Longrightarrow> \<forall>s \<in> set segs. \<forall>ch \<in> set s. \<not> P ch \<Longrightarrow>
   split_on P (join_with c segs) = segs"
proof (induction c segs rule: join_with.induct)
  case (1 c)
  then show ?case by simp
next
  case (2 c s)
  then show ?case by (simp add: split_on_free)
next
  case (3 c s t ss)
  then show ?case by (simp add: split_on_append split_on_free)
qed

lemma split_on_segments_free:
  "\<forall>seg \<in> set (split_on P s). \<forall>ch \<in> set seg. \<not> P ch"
proof (induction s)
  case Nil
  show ?case by simp
next
  case (Cons x s)
  obtain y ys where "split_on P s = y # ys"
    using split_on_not_Nil [of P s] by (cases "split_on P s") auto
  with Cons show ?case by auto
qed

lemma foldl_step_plain:
  "\<forall>y \<in> set ys. plain y \<Longrightarrow> foldl (normalize_step a) acc ys = acc @ ys"
  by (induction ys arbitrary: acc) (auto simp: normalize_step_def plain_def)

lemma normalize_segments_append:
  "normalize_segments a (xs @ ys) = foldl (normalize_step a) (normalize_segments a xs) ys"
  by (simp add: normalize_segments_def)

lemma normalize_segments_plain: "\<forall>y \<in> set ys. plain y \<Longrightarrow> normalize_segments a ys = ys"
  by (simp add: normalize_segments_def foldl_step_plain)

lemma step_False_plain:
  "\<forall>y \<in> set acc. plain y \<Longrightarrow> \<forall>y \<in> set (normalize_step False acc x). plain y"
  by (auto simp: normalize_step_def plain_def dest: in_set_butlastD)

lemma foldl_False_plain:
  "\<forall>y \<in> set acc. plain y \<Longrightarrow> \<forall>y \<in> set (foldl (normalize_step False) acc xs). plain y"
proof (induction xs arbitrary: acc)
  case Nil
  then show ?case by simp
next
  case (Cons x xs)
  show ?case
    using Cons.IH [OF step_False_plain [OF Cons.prems, of x]] by simp
qed

lemma normalize_False_plain: "\<forall>y \<in> set (normalize_segments False xs). plain y"
  using foldl_False_plain [of "[]" xs] by (simp add: normalize_segments_def)

lemma step_subset: "set (normalize_step a acc x) \<subseteq> set acc \<union> {x}"
  by (auto simp: normalize_step_def dest: in_set_butlastD)

lemma foldl_subset: "set (foldl (normalize_step a) acc xs) \<subseteq> set acc \<union> set xs"
proof (induction xs arbitrary: acc)
  case Nil
  show ?case by simp
next
  case (Cons x xs)
  show ?case
    using Cons.IH [of "normalize_step a acc x"] step_subset [of a acc x] by auto
qed

lemma normalize_segments_subset: "set (normalize_segments a xs) \<subseteq> set xs"
  using foldl_subset [of a "[]" xs] by (simp add: normalize_segments_def)

lemma foldl_step_skip_empty [simp]:
  "foldl (normalize_step a) acc (xs @ [[]]) = foldl (normalize_step a) acc xs"
  by (simp add: normalize_step_def)

lemma foldl_step_pop:
  "\<forall>y \<in> set ups. plain y \<Longrightarrow>
   foldl (normalize_step a) (com @ ups) (replicate (length ups) ''..'') = com"
proof (induction ups rule: rev_induct)
  case Nil
  then show ?case by simp
next
  case (snoc x ups)
  have "normalize_step a (com @ ups @ [x]) ''..'' = com @ ups"
    using snoc.prems by (simp add: normalize_step_def plain_def butlast_append)
  then show ?case
    using snoc by simp
qed


lemma valid_name_plain: "valid_name s \<Longrightarrow> plain s"
  by (simp add: valid_name_def plain_def)

lemma split_posix_free: "CHR ''/'' \<notin> set s \<Longrightarrow> split_on (isPathSeparator Posix) s = [s]"
  by (rule split_on_free) auto

lemma split_posix_join:
  "segs \<noteq> [] \<Longrightarrow> \<forall>s \<in> set segs. valid_name s \<Longrightarrow>
   split_on (isPathSeparator Posix) (join_with (CHR ''/'') segs) = segs"
  by (rule split_on_join) (auto simp: valid_name_def)

lemma normalize_split_join:
  assumes "\<forall>s \<in> set segs. valid_name s"
  shows "normalize_segments a (split_on (isPathSeparator Posix) (join_with (CHR ''/'') segs)) = segs"
proof (cases "segs = []")
  case True
  then show ?thesis by (simp add: normalize_segments_def normalize_step_def)
next
  case False
  then show ?thesis
    using assms by (simp add: split_posix_join normalize_segments_plain valid_name_plain)
qed

lemma split_rooted:
  "split_on (isPathSeparator Posix) (CHR ''/'' # s) = [] # split_on (isPathSeparator Posix) s"
  by simp

lemma normalize_Cons_empty [simp]: "normalize_segments a ([] # xs) = normalize_segments a xs"
  by (simp add: normalize_segments_def normalize_step_def)

lemma normalize_rooted:
  "\<forall>s \<in> set segs. valid_name s \<Longrightarrow>
   normalize_segments a (split_on (isPathSeparator Posix) (CHR ''/'' # join_with (CHR ''/'') segs)) = segs"
  by (simp add: normalize_split_join)

lemma abs_segments_rooted:
  "\<forall>s \<in> set segs. valid_name s \<Longrightarrow>
   abs_segments c (CHR ''/'' # join_with (CHR ''/'') segs) = segs"
  by (simp add: abs_segments_def normalize_split_join)

lemma normalize_False_valid:
  "\<forall>s \<in> set (normalize_segments False (split_on (isPathSeparator Posix) p)). valid_name s"
proof
  fix s assume s: "s \<in> set (normalize_segments False (split_on (isPathSeparator Posix) p))"
  then have "plain s" using normalize_False_plain by blast
  moreover have "s \<in> set (split_on (isPathSeparator Posix) p)"
    using s normalize_segments_subset by blast
  then have "CHR ''/'' \<notin> set s"
    using split_on_segments_free [of "isPathSeparator Posix" p] by auto
  ultimately show "valid_name s" by (simp add: valid_name_def plain_def)
qed

lemma abs_segments_valid: "\<forall>s \<in> set (abs_segments c p). valid_name s"
  unfolding abs_segments_def by (rule normalize_False_valid)

lemma resolve_loop_absolute:
  "c \<noteq> [] \<Longrightarrow> hd c = CHR ''/'' \<Longrightarrow> snd (resolve_loop (xs @ [c]) acc) = True"
  by (induction xs arbitrary: acc) auto

lemma path_resolve_form:
  assumes "c \<noteq> []" "hd c = CHR ''/''"
  shows "path_resolve c args =
         CHR ''/'' # join_with (CHR ''/'')
           (normalize_segments False
              (split_on (isPathSeparator Posix) (fst (resolve_loop (rev args @ [c]) []))))"
proof -
  obtain rp ab where loop: "resolve_loop (rev args @ [c]) [] = (rp, ab)"
    by (cases "resolve_loop (rev args @ [c]) []")
  with resolve_loop_absolute [OF assms, of "rev args" "[]"] have "ab" by simp
  then show ?thesis
    by (simp add: path_resolve_def normalizeString_def loop Let_def)
qed

lemma abs_segments_path_resolve:
  assumes "c \<noteq> []" "hd c = CHR ''/''"
  shows "abs_segments c' (path_resolve c args) =
         normalize_segments False
           (split_on (isPathSeparator Posix) (fst (resolve_loop (rev args @ [c]) [])))"
  by (simp add: path_resolve_form [OF assms] abs_segments_rooted normalize_False_valid)

lemma join_with_snoc:
  "join_with c (xs @ [x]) = (if xs = [] then x else join_with c xs @ c # x)"
  by (induction c xs rule: join_with.induct) auto


lemma path_join_rooted:
  assumes out: "\<forall>s \<in> set out. valid_name s" and f: "valid_name f"
  shows "path_join Posix [CHR ''/'' # join_with (CHR ''/'') out, f] =
         CHR ''/'' # join_with (CHR ''/'') (out @ [f])"
proof -
  define d where "d = CHR ''/'' # join_with (CHR ''/'') out"
  define joined where "joined = d @ CHR ''/'' # f"
  have fne: "f \<noteq> []"
    using f by (simp add: valid_name_def)
  have "last f \<in> set f"
    using fne by (rule last_in_set)
  then have flast: "last f \<noteq> CHR ''/''"
    using f unfolding valid_name_def by metis
  have shape: "joined \<noteq> []" "hd joined = CHR ''/''" "last joined = last f"
    using fne by (simp_all add: joined_def d_def)
  have "split_on (isPathSeparator Posix) joined =
        split_on (isPathSeparator Posix) d @ split_on (isPathSeparator Posix) f"
    unfolding joined_def by (rule split_on_append) simp
  moreover have "split_on (isPathSeparator Posix) f = [f]"
    using f by (intro split_posix_free) (simp add: valid_name_def)
  ultimately have split: "split_on (isPathSeparator Posix) joined =
                          split_on (isPathSeparator Posix) d @ [f]"
    by simp
  have "normalize_segments False (split_on (isPathSeparator Posix) d) = out"
    unfolding d_def using out by (rule normalize_rooted)
  then have norm: "normalize_segments False (split_on (isPathSeparator Posix) joined) = out @ [f]"
    unfolding split normalize_segments_append
    using f by (simp add: normalize_step_def valid_name_def)
  have ne: "join_with (CHR ''/'') (out @ [f]) \<noteq> []"
    using fne by (simp add: join_with_snoc)
  have "path_normalize Posix joined = CHR ''/'' # join_with (CHR ''/'') (out @ [f])"
    using ne flast shape
    by (simp add: path_normalize_def normalizeString_def norm Let_def)
  moreover have "path_join Posix [d, f] = path_normalize Posix joined"
    using fne by (simp add: path_join_def joined_def d_def)
  ultimately show ?thesis by (simp add: d_def)
qed

section \<open>Facts about the file system\<close>

lemma fs_lookup_append:
  "fs_lookup root (p @ q) = (case fs_lookup root p of None \<Rightarrow> None | Some m \<Rightarrow> fs_lookup m q)"
proof (induction root p rule: fs_lookup.induct)
  case (1 n)
  show ?case by simp
next
  case (2 c s ss)
  show ?case by simp
next
  case (3 es s ss)
  then show ?case by (simp split: option.splits)
qed

lemma map_of_update: "map_of (AList.update k v al) = (map_of al)(k \<mapsto> v)"
  by (rule update_conv')

lemma delete_absent: "k \<notin> fst ` set al \<Longrightarrow> AList.delete k al = al"
  by (induction al) (auto simp: AList.delete_eq)

lemma remove_at_child:
  assumes "fs_lookup root p = Some (Dir es)" and "map_of es f = Some ch"
  shows "\<exists>root'. remove_at (p @ [f]) root = Inr root' \<and>
                 fs_lookup root' p = Some (Dir (AList.delete f es))"
  using assms
proof (induction p arbitrary: root)
  case Nil
  then show ?case by simp
next
  case (Cons s ss)
  from Cons.prems(1) obtain rs where root: "root = Dir rs"
    by (cases root) auto
  from Cons.prems(1) root obtain m where m: "map_of rs s = Some m" "fs_lookup m ss = Some (Dir es)"
    by (auto split: option.splits)
  from Cons.IH [OF m(2) Cons.prems(2)] obtain m' where
    m': "remove_at (ss @ [f]) m = Inr m'" "fs_lookup m' ss = Some (Dir (AList.delete f es))"
    by blast
  show ?case
    by (simp add: root m m' map_of_update)
qed

lemma mkdir_p_fresh: "mkdir_p p (Dir []) = Inr n \<Longrightarrow> fs_lookup n p = Some (Dir [])"
proof (induction p arbitrary: n)
  case Nil
  then show ?case by auto
next
  case (Cons s ss)
  then show ?case by (auto split: sum.splits)
qed

lemma mkdir_p_creates:
  "fs_lookup root p = None \<Longrightarrow> mkdir_p p root = Inr root' \<Longrightarrow> fs_lookup root' p = Some (Dir [])"
proof (induction p root arbitrary: root' rule: mkdir_p.induct)
  case (1 es)
  then show ?case by simp
next
  case (2 c)
  then show ?case by simp
next
  case (3 s ss c)
  then show ?case by simp
next
  case (4 s ss es)
  show ?case
  proof (cases "map_of es s")
    case None
    with "4.prems"(2) obtain ch where ch: "mkdir_p ss (Dir []) = Inr ch" "root' = Dir (es @ [(s, ch)])"
      by (auto split: sum.splits)
    then show ?thesis
      using None mkdir_p_fresh [OF ch(1)] by (simp add: map_of_append map_add_def)
  next
    case (Some m)
    with "4.prems"(2) obtain m' where m': "mkdir_p ss m = Inr m'" "root' = Dir (AList.update s m' es)"
      by (auto split: sum.splits)
    from "4.prems"(1) Some have "fs_lookup m ss = None" by simp
    from "4.IH"(2) [OF Some this m'(1)] show ?thesis
      by (simp add: m'(2) map_of_update)
  qed
qed

lemma fs_lookup_prefix_dir:
  "fs_lookup root (p @ q) = Some m \<Longrightarrow> q \<noteq> [] \<Longrightarrow> \<exists>es. fs_lookup root p = Some (Dir es)"
  by (cases "fs_lookup root p"; cases q)
     (auto simp: fs_lookup_append split: option.splits elim: fs_lookup.elims)


lemma cleanDirectory_each_empties:
  assumes "fs_lookup (fs w) out = Some (Dir es)"
    and "distinct (map fst es)"
    and "\<forall>f \<in> set (map fst es). valid_name f"
    and "\<forall>s \<in> set out. valid_name s"
  shows "\<exists>w'. cleanDirectory_each (CHR ''/'' # join_with (CHR ''/'') out) (map fst es) w = (None, w')
              \<and> fs_lookup (fs w') out = Some (Dir []) \<and> cwd w' = cwd w \<and> console w' = console w"
  using assms(1-3)
proof (induction es arbitrary: w)
  case Nil
  then show ?case by simp
next
  case (Cons e es)
  obtain f n where e: "e = (f, n)" by (cases e)
  let ?d = "CHR ''/'' # join_with (CHR ''/'') out"
  have f: "valid_name f" using Cons.prems(3) e by simp
  have full: "abs_segments (cwd w) (path_join Posix [?d, f]) = out @ [f]"
    using assms(4) f by (simp add: path_join_rooted abs_segments_rooted)
  have look: "fs_lookup (fs w) (out @ [f]) = Some n"
    using Cons.prems(1) e by (simp add: fs_lookup_append)
  have "map_of (e # es) f = Some n" using e by simp
  from remove_at_child [OF Cons.prems(1) this] obtain root' where
    root': "remove_at (out @ [f]) (fs w) = Inr root'"
           "fs_lookup root' out = Some (Dir (AList.delete f (e # es)))"
    by blast
  have "f \<notin> fst ` set es" using Cons.prems(2) e by auto
  then have "AList.delete f es = es"
    by (rule delete_absent)
  then have rest: "AList.delete f (e # es) = es"
    using e by simp
  define w1 where "w1 = w\<lparr>fs := root'\<rparr>"
  have step: "(if (case n of File c \<Rightarrow> False | Dir sub \<Rightarrow> True)
               then rmdirSync_recursive w (path_join Posix [?d, f])
               else unlinkSync w (path_join Posix [?d, f])) = Inr w1"
    by (cases n) (simp_all add: rmdirSync_recursive_def unlinkSync_def full look root' w1_def)
  have lstat: "lstatSync_isDirectory w (path_join Posix [?d, f]) =
               Inr (case n of File c \<Rightarrow> False | Dir sub \<Rightarrow> True)"
    by (cases n) (simp_all add: lstatSync_isDirectory_def full look)
  have "fs_lookup (fs w1) out = Some (Dir es)"
    using root'(2) rest by (simp add: w1_def)
  from Cons.IH [OF this] Cons.prems(2,3) obtain w' where
    w': "cleanDirectory_each ?d (map fst es) w1 = (None, w')"
        "fs_lookup (fs w') out = Some (Dir [])" "cwd w' = cwd w1" "console w' = console w1"
    by auto
  have "cleanDirectory_each ?d (map fst (e # es)) w = (None, w')"
    using lstat step w'(1) e by (simp add: Let_def)
  then show ?case
    using w' by (simp add: w1_def)
qed

lemma cleanDirectory_empties:
  assumes "fs_lookup (fs w) out = Some (Dir es)"
    and "distinct (map fst es)"
    and "\<forall>f \<in> set (map fst es). valid_name f"
    and "\<forall>s \<in> set out. valid_name s"
  shows "\<exists>w'. cleanDirectory (CHR ''/'' # join_with (CHR ''/'') out) w = (None, w')
              \<and> fs_lookup (fs w') out = Some (Dir []) \<and> cwd w' = cwd w"
proof -
  from cleanDirectory_each_empties [OF assms] obtain w' where
    w': "cleanDirectory_each (CHR ''/'' # join_with (CHR ''/'') out) (map fst es) w = (None, w')"
        "fs_lookup (fs w') out = Some (Dir [])" "cwd w' = cwd w"
    by blast
  have "readdirSync w (CHR ''/'' # join_with (CHR ''/'') out) = Inr (map fst es)"
    using assms(1,4) by (simp add: readdirSync_def abs_segments_rooted)
  then show ?thesis
    using w' by (simp add: cleanDirectory_def console_log_def)
qed


lemma mkdir_p_fresh_succeeds: "\<exists>n. mkdir_p p (Dir []) = Inr n"
  by (induction p) auto

lemma mkdir_p_succeeds:
  "\<forall>k \<le> length p. \<forall>c. fs_lookup root (take k p) \<noteq> Some (File c) \<Longrightarrow> \<exists>root'. mkdir_p p root = Inr root'"
proof (induction p root rule: mkdir_p.induct)
  case (1 es)
  show ?case by simp
next
  case (2 c)
  then show ?case by auto
next
  case (3 s ss c)
  from "3.prems" have "fs_lookup (File c) (take 0 (s # ss)) \<noteq> Some (File c)" by blast
  then show ?case by simp
next
  case (4 s ss es)
  show ?case
  proof (cases "map_of es s")
    case None
    then show ?thesis
      using mkdir_p_fresh_succeeds [of ss] by auto
  next
    case (Some m)
    have "\<forall>k \<le> length ss. \<forall>c. fs_lookup m (take k ss) \<noteq> Some (File c)"
    proof (intro allI impI)
      fix k c assume "k \<le> length ss"
      then have "fs_lookup (Dir es) (take (Suc k) (s # ss)) \<noteq> Some (File c)"
        using "4.prems" by (metis Suc_le_mono length_Cons)
      then show "fs_lookup m (take k ss) \<noteq> Some (File c)"
        using Some by simp
    qed
    from "4.IH"(2) [OF Some this] show ?thesis
      using Some by auto
  qed
qed

lemma getHostAppPackageJson_frame:
  "getHostAppPackageJson ev w = (pkg, w') \<Longrightarrow> fs w' = fs w \<and> cwd w' = cwd w"
  by (auto simp: getHostAppPackageJson_def console_log_def split: sum.splits)

lemma uuidv4_frame: "uuidv4 w = (u, w') \<Longrightarrow> fs w' = fs w \<and> cwd w' = cwd w"
  by (auto simp: uuidv4_def)

lemma constructor_cleans_existing:
  assumes c: "cwd w \<noteq> []" "hd (cwd w) = CHR ''/''"
    and dir: "fs_lookup (fs w) (outputDir_of opts w) = Some (Dir es)"
    and wf: "distinct (map fst es)" "\<forall>f \<in> set (map fst es). valid_name f"
  shows "\<exists>r w'. new_ChalishaReporter ev opts w = (Inr r, w')
               \<and> fs_lookup (fs w') (outputDir_of opts w) = Some (Dir [])"
proof -
  let ?rd = "or_else (opt_reportDir opts) ''reports/chalisha-reporter/''"
  let ?out = "outputDir_of opts w"
  obtain u w1 where w1: "uuidv4 w = (u, w1)" by (cases "uuidv4 w")
  obtain pkg w2 where w2: "getHostAppPackageJson ev w1 = (pkg, w2)"
    by (cases "getHostAppPackageJson ev w1")
  have frame: "fs w2 = fs w" "cwd w2 = cwd w"
    using uuidv4_frame [OF w1] getHostAppPackageJson_frame [OF w2] by simp_all
  have valid: "\<forall>s \<in> set ?out. valid_name s"
    unfolding outputDir_of_def by (rule abs_segments_valid)
  have form: "path_resolve (cwd w) [cwd w, ?rd] = CHR ''/'' # join_with (CHR ''/'') ?out"
    unfolding outputDir_of_def abs_segments_path_resolve [OF c]
    by (rule path_resolve_form [OF c])
  have abs: "abs_segments (cwd w) (path_resolve (cwd w) [cwd w, ?rd]) = ?out"
    by (simp add: outputDir_of_def)
  have ex: "existsSync w2 (path_resolve (cwd w) [cwd w, ?rd])"
    using dir by (simp add: existsSync_def frame abs)
  from cleanDirectory_empties [of w2 ?out es] dir wf valid frame obtain w3 where
    w3: "cleanDirectory (CHR ''/'' # join_with (CHR ''/'') ?out) w2 = (None, w3)"
        "fs_lookup (fs w3) ?out = Some (Dir [])"
    by auto
  show ?thesis
    using ex w3
    by (simp add: new_ChalishaReporter_def w1 w2 frame Let_def form [symmetric])
qed

lemma constructor_creates_missing:
  assumes c: "cwd w \<noteq> []" "hd (cwd w) = CHR ''/''"
    and none: "fs_lookup (fs w) (outputDir_of opts w) = None"
    and ok: "new_ChalishaReporter ev opts w = (Inr r, w')"
  shows "fs_lookup (fs w') (outputDir_of opts w) = Some (Dir [])"
proof -
  let ?rd = "or_else (opt_reportDir opts) ''reports/chalisha-reporter/''"
  let ?out = "outputDir_of opts w"
  obtain u w1 where w1: "uuidv4 w = (u, w1)" by (cases "uuidv4 w")
  obtain pkg w2 where w2: "getHostAppPackageJson ev w1 = (pkg, w2)"
    by (cases "getHostAppPackageJson ev w1")
  have frame: "fs w2 = fs w" "cwd w2 = cwd w"
    using uuidv4_frame [OF w1] getHostAppPackageJson_frame [OF w2] by simp_all
  have abs: "abs_segments (cwd w) (path_resolve (cwd w) [cwd w, ?rd]) = ?out"
    by (simp add: outputDir_of_def)
  have nex: "\<not> existsSync w2 (path_resolve (cwd w) [cwd w, ?rd])"
    using none by (simp add: existsSync_def frame abs)
  from ok nex obtain root' where
    root': "mkdir_p ?out (fs w) = Inr root'" "fs w' = root'"
    by (auto simp: new_ChalishaReporter_def w1 w2 frame Let_def mkdirSync_recursive_def abs
             split: sum.splits)
  from mkdir_p_creates [OF none root'(1)] show ?thesis
    by (simp add: root'(2))
qed

lemma constructor_mkdir_succeeds:
  assumes c: "cwd w \<noteq> []" "hd (cwd w) = CHR ''/''"
    and none: "fs_lookup (fs w) (outputDir_of opts w) = None"
    and nofile: "\<forall>k \<le> length (outputDir_of opts w). \<forall>c. fs_lookup (fs w) (take k (outputDir_of opts w)) \<noteq> Some (File c)"
  shows "\<exists>r w'. new_ChalishaReporter ev opts w = (Inr r, w')"
proof -
  let ?rd = "or_else (opt_reportDir opts) ''reports/chalisha-reporter/''"
  let ?out = "outputDir_of opts w"
  obtain u w1 where w1: "uuidv4 w = (u, w1)" by (cases "uuidv4 w")
  obtain pkg w2 where w2: "getHostAppPackageJson ev w1 = (pkg, w2)"
    by (cases "getHostAppPackageJson ev w1")
  have frame: "fs w2 = fs w" "cwd w2 = cwd w"
    using uuidv4_frame [OF w1] getHostAppPackageJson_frame [OF w2] by simp_all
  have abs: "abs_segments (cwd w) (path_resolve (cwd w) [cwd w, ?rd]) = ?out"
    by (simp add: outputDir_of_def)
  have nex: "\<not> existsSync w2 (path_resolve (cwd w) [cwd w, ?rd])"
    using none by (simp add: existsSync_def frame abs)
  from mkdir_p_succeeds [OF nofile] obtain root' where "mkdir_p ?out (fs w) = Inr root'"
    by blast
  then show ?thesis
    using nex
    by (simp add: new_ChalishaReporter_def w1 w2 frame Let_def mkdirSync_recursive_def abs)
qed

section \<open>The outcome counters\<close>

lemma countStatus_counted: "counted (countStatus st r) = counted r + 1"
  by (cases st) (simp_all add: countStatus_def counted_def)

lemma counted_testResults_update: "counted (r\<lparr>testResults := ts\<rparr>) = counted r"
  by (simp add: counted_def)

lemma onTestEnd_counted: "counted (snd (fst (onTestEnd r test result w))) = counted r + 1"
  by (simp add: onTestEnd_def Let_def countStatus_counted counted_testResults_update
           split: prod.splits sum.splits)

text \<open>
  C1. Every test-end event increments exactly one of the five outcome counters, first
  thing in \<open>onTestEnd\<close> and whether or not the rest of the callback throws. So after any
  sequence of delivered events the five counters have grown, in sum, by the number of
  events; from the constructor's zeros the sum is the number of events processed. The
  declared \<open>totalTests\<close> plays no part.
\<close>

theorem counters_sum_to_events_processed:
  "counted (fst (deliver_test_ends events r w)) = counted r + length events"
proof (induction events arbitrary: r w)
  case Nil
  show ?case by simp
next
  case (Cons ev events)
  obtain test result where ev: "ev = (test, result)" by (cases ev)
  obtain thrown r' w' where step: "onTestEnd r test result w = ((thrown, r'), w')"
    by (metis prod.exhaust)
  have "counted r' = counted r + 1"
    using onTestEnd_counted [of r test result w] step by simp
  with Cons.IH [of r' w'] show ?case
    by (simp add: ev step)
qed

section \<open>Step capture\<close>

lemma capture_None: "captureNestedSteps c root None level = []"
  by (simp add: captureNestedSteps.simps)

lemma capture_Nil: "captureNestedSteps c root (Some []) level = []"
  by (simp add: captureNestedSteps.simps)

lemma capture_deep: "4 \<le> level \<Longrightarrow> captureNestedSteps c root (Some steps) level = []"
  by (simp add: captureNestedSteps.simps)

lemma capture_map:
  "level < 4 \<Longrightarrow>
   captureNestedSteps c root (Some steps) level =
     map (\<lambda>step. StepDetails (step_title step) (step_duration step)
                 (format_location c root (step_location step))
                 (captureNestedSteps c root (Some (children step)) (level + 1))
                 (step_error step \<noteq> None)) steps"
  by (cases "steps = []") (simp_all add: captureNestedSteps.simps children_def)

lemma capture_append:
  "captureNestedSteps c root (Some (xs @ ys)) level =
     captureNestedSteps c root (Some xs) level @ captureNestedSteps c root (Some ys) level"
proof (cases "level < 4")
  case True
  then show ?thesis by (simp add: capture_map)
next
  case False
  then show ?thesis by (simp add: capture_deep)
qed

lemma capture_concat:
  "concat (map (\<lambda>s. captureNestedSteps c root (Some (f s)) level) steps) =
     captureNestedSteps c root (Some (concat (map f steps))) level"
  by (induction steps) (simp_all add: capture_Nil capture_append)

lemma capture_children:
  "level < 4 \<Longrightarrow>
   concat (map sd_steps (captureNestedSteps c root (Some steps) level)) =
     captureNestedSteps c root (Some (concat (map children steps))) (level + 1)"
  by (simp add: capture_map o_def capture_concat)

lemma capture_labels:
  "level < 4 \<Longrightarrow>
   map label_of (captureNestedSteps c root (Some steps) level) = map (summary_of c root) steps"
  by (simp add: capture_map label_of_def summary_of_def)

lemma details_at_Nil: "details_at k [] = []"
  by (induction k) simp_all

lemma details_at_Suc: "details_at (Suc k) ds = concat (map sd_steps (details_at k ds))"
  by (induction k arbitrary: ds) simp_all

lemma capture_levels:
  "0 \<le> level \<Longrightarrow>
   map label_of (details_at k (captureNestedSteps c root (Some steps) level)) =
     (if level + int k < 4 then map (summary_of c root) (steps_at k steps) else [])"
proof (induction k arbitrary: steps level)
  case 0
  then show ?case by (simp add: capture_labels capture_deep)
next
  case (Suc k)
  show ?case
  proof (cases "level < 4")
    case True
    have "map label_of (details_at (Suc k) (captureNestedSteps c root (Some steps) level)) =
          map label_of (details_at k
            (captureNestedSteps c root (Some (concat (map children steps))) (level + 1)))"
      using True by (simp add: capture_children)
    also have "\<dots> = (if (level + 1) + int k < 4
                     then map (summary_of c root) (steps_at k (concat (map children steps)))
                     else [])"
      using Suc.prems by (intro Suc.IH) simp
    finally show ?thesis by (simp add: add.commute add.left_commute)
  next
    case False
    then show ?thesis by (simp add: capture_deep details_at_Nil)
  qed
qed

lemma capture_level_4_empty: "details_at 4 (captureNestedSteps c root (Some steps) 0) = []"
  using capture_levels [of 0 4 c root steps] by simp

text \<open>
  C2. \<open>captureNestedSteps\<close> returns the empty sequence when the step list is absent, when
  it is empty, and when \<open>level \<ge> 4\<close>; otherwise it maps each step to a summary whose child
  list is the capture of the step's children at \<open>level + 1\<close>. Hence, started at level 0
  on any step forest (a tree of depth 6 in particular), the output shows at each of the
  levels 0 to 3 exactly the input's steps of that level, in order and with their name,
  duration, location and error flag; every node at level 3 has an empty child list and
  there is no level 4.
\<close>

theorem captureNestedSteps_truncates_at_level_4:
  "captureNestedSteps c root None level = []
   \<and> captureNestedSteps c root (Some []) level = []
   \<and> (4 \<le> level \<longrightarrow> captureNestedSteps c root (Some steps) level = [])
   \<and> (steps \<noteq> [] \<and> level < 4 \<longrightarrow>
        captureNestedSteps c root (Some steps) level =
          map (\<lambda>step. StepDetails (step_title step) (step_duration step)
                  (format_location c root (step_location step))
                  (captureNestedSteps c root (Some (children step)) (level + 1))
                  (step_error step \<noteq> None)) steps)
   \<and> (\<forall>k < 4. map label_of (details_at k (captureNestedSteps c root (Some steps) 0)) =
                map (summary_of c root) (steps_at k steps))
   \<and> (\<forall>d \<in> set (details_at 3 (captureNestedSteps c root (Some steps) 0)). sd_steps d = [])
   \<and> details_at 4 (captureNestedSteps c root (Some steps) 0) = []"
proof -
  have levels: "\<forall>k < 4. map label_of (details_at k (captureNestedSteps c root (Some steps) 0)) =
                          map (summary_of c root) (steps_at k steps)"
    using capture_levels [of 0 _ c root steps] by simp
  have "details_at (Suc 3) (captureNestedSteps c root (Some steps) 0) = []"
    using capture_level_4_empty [of c root steps] by simp
  then have "concat (map sd_steps (details_at 3 (captureNestedSteps c root (Some steps) 0))) = []"
    by (simp only: details_at_Suc)
  then have leaves: "\<forall>d \<in> set (details_at 3 (captureNestedSteps c root (Some steps) 0)). sd_steps d = []"
    by simp
  have deep: "4 \<le> level \<longrightarrow> captureNestedSteps c root (Some steps) level = []"
    by (simp add: capture_deep)
  have mapped: "steps \<noteq> [] \<and> level < 4 \<longrightarrow>
        captureNestedSteps c root (Some steps) level =
          map (\<lambda>step. StepDetails (step_title step) (step_duration step)
                  (format_location c root (step_location step))
                  (captureNestedSteps c root (Some (children step)) (level + 1))
                  (step_error step \<noteq> None)) steps"
    using capture_map [of level c root steps] by blast
  note parts = capture_None [of c root level] capture_Nil [of c root level] deep mapped
    levels leaves capture_level_4_empty [of c root steps]
  show ?thesis
    by (intro conjI) (rule parts)+
qed

theorem captureNestedSteps_truncates_at_level_4_witness:
  "captureNestedSteps ''/proj'' ''/proj'' (Some demo_steps) 0 =
     [StepDetails ''level 0'' 60 ''tests/a.spec.ts:12''
        [StepDetails ''level 1'' 50 []
           [StepDetails ''level 2'' 40 [] [StepDetails ''level 3'' 30 [] [] False] False]
           True]
        False]
   \<and> map label_of (details_at 3 (captureNestedSteps ''/proj'' ''/proj'' (Some demo_steps) 0)) =
        [(''level 3'', 30, [], False)]
   \<and> map step_title (steps_at 5 demo_steps) = [''level 5'']"
proof -
  have top: "demo_steps \<noteq> [] \<and> (0::int) < 4"
    by (simp add: demo_steps_def)
  have three: "(3::nat) < 4" by simp
  have whole: "captureNestedSteps ''/proj'' ''/proj'' (Some demo_steps) 0 =
     [StepDetails ''level 0'' 60 ''tests/a.spec.ts:12''
        [StepDetails ''level 1'' 50 []
           [StepDetails ''level 2'' 40 [] [StepDetails ''level 3'' 30 [] [] False] False]
           True]
        False]"
    by code_simp
  have third: "map (summary_of ''/proj'' ''/proj'') (steps_at 3 demo_steps) = [(''level 3'', 30, [], False)]"
    by code_simp
  have fifth: "map step_title (steps_at 5 demo_steps) = [''level 5'']"
    by code_simp
  from captureNestedSteps_truncates_at_level_4 [of "''/proj''" "''/proj''" 0 demo_steps] three
  have "map label_of (details_at 3 (captureNestedSteps ''/proj'' ''/proj'' (Some demo_steps) 0)) =
        map (summary_of ''/proj'' ''/proj'') (steps_at 3 demo_steps)"
    by blast
  with whole third fifth show ?thesis by simp
qed

section \<open>The output directory at construction\<close>

text \<open>
  C5. Constructing the reporter on an absolute working directory: when the output
  directory exists as a directory (its listing has distinct, valid entry names), the
  constructor succeeds and afterwards the directory is still there and has no entries.
  When nothing exists at the output path, a successful construction leaves an empty
  directory there, every prefix of its path being a directory; and the construction does
  succeed if no prefix of the path is a file.
\<close>

theorem constructor_empties_or_creates_output_directory:
  assumes "cwd w \<noteq> []" and "hd (cwd w) = CHR ''/''"
  shows "(\<forall>es. fs_lookup (fs w) (outputDir_of opts w) = Some (Dir es)
              \<and> distinct (map fst es) \<and> (\<forall>f \<in> set (map fst es). valid_name f) \<longrightarrow>
            (\<exists>r w'. new_ChalishaReporter ev opts w = (Inr r, w')
                   \<and> fs_lookup (fs w') (outputDir_of opts w) = Some (Dir [])))
       \<and> (fs_lookup (fs w) (outputDir_of opts w) = None \<longrightarrow>
            (\<forall>r w'. new_ChalishaReporter ev opts w = (Inr r, w') \<longrightarrow>
               fs_lookup (fs w') (outputDir_of opts w) = Some (Dir [])
               \<and> (\<forall>k \<le> length (outputDir_of opts w).
                     is_directory (fs_lookup (fs w') (take k (outputDir_of opts w)))))
            \<and> ((\<forall>k \<le> length (outputDir_of opts w). \<forall>c.
                   fs_lookup (fs w) (take k (outputDir_of opts w)) \<noteq> Some (File c)) \<longrightarrow>
                 (\<exists>r w'. new_ChalishaReporter ev opts w = (Inr r, w'))))"
proof (intro conjI allI impI)
  fix es
  assume "fs_lookup (fs w) (outputDir_of opts w) = Some (Dir es)
          \<and> distinct (map fst es) \<and> (\<forall>f \<in> set (map fst es). valid_name f)"
  then show "\<exists>r w'. new_ChalishaReporter ev opts w = (Inr r, w')
                   \<and> fs_lookup (fs w') (outputDir_of opts w) = Some (Dir [])"
    using constructor_cleans_existing [OF assms, of opts es ev] by blast
next
  fix r w'
  assume none: "fs_lookup (fs w) (outputDir_of opts w) = None"
    and ok: "new_ChalishaReporter ev opts w = (Inr r, w')"
  show "fs_lookup (fs w') (outputDir_of opts w) = Some (Dir [])"
    by (rule constructor_creates_missing [OF assms none ok])
next
  fix r w' k
  assume none: "fs_lookup (fs w) (outputDir_of opts w) = None"
    and ok: "new_ChalishaReporter ev opts w = (Inr r, w')"
    and k: "k \<le> length (outputDir_of opts w)"
  have made: "fs_lookup (fs w') (outputDir_of opts w) = Some (Dir [])"
    by (rule constructor_creates_missing [OF assms none ok])
  show "is_directory (fs_lookup (fs w') (take k (outputDir_of opts w)))"
  proof (cases "drop k (outputDir_of opts w) = []")
    case True
    then have "take k (outputDir_of opts w) = outputDir_of opts w" by simp
    then show ?thesis by (simp add: made is_directory_def)
  next
    case False
    have "fs_lookup (fs w') (take k (outputDir_of opts w) @ drop k (outputDir_of opts w)) = Some (Dir [])"
      using made by simp
    from fs_lookup_prefix_dir [OF this False] show ?thesis
      by (auto simp: is_directory_def)
  qed
next
  assume "fs_lookup (fs w) (outputDir_of opts w) = None"
    and "\<forall>k \<le> length (outputDir_of opts w). \<forall>c.
           fs_lookup (fs w) (take k (outputDir_of opts w)) \<noteq> Some (File c)"
  then show "\<exists>r w'. new_ChalishaReporter ev opts w = (Inr r, w')"
    using constructor_mkdir_succeeds [OF assms, of opts ev] by blast
qed

theorem constructor_empties_or_creates_output_directory_witness:
  "outputDir_of demo_options demo_world = [''proj'', ''reports'', ''chalisha-reporter'']
   \<and> fs_lookup (fs demo_world) [''proj'', ''reports'', ''chalisha-reporter''] =
        Some (Dir [(''result.json'', File ''stale''), (''data'', Dir [(''old.png'', File ''old'')])])
   \<and> (\<exists>r w'. new_ChalishaReporter demo_env demo_options demo_world = (Inr r, w')
             \<and> fs_lookup (fs w') [''proj'', ''reports'', ''chalisha-reporter''] = Some (Dir []))
   \<and> outputDir_of (demo_options\<lparr>opt_reportDir := Some ''out/report''\<rparr>) demo_world =
        [''proj'', ''out'', ''report'']
   \<and> fs_lookup (fs demo_world) [''proj'', ''out'', ''report''] = None
   \<and> (\<exists>r w'. new_ChalishaReporter demo_env (demo_options\<lparr>opt_reportDir := Some ''out/report''\<rparr>)
                 demo_world = (Inr r, w')
             \<and> fs_lookup (fs w') [''proj'', ''out'', ''report''] = Some (Dir [])
             \<and> is_directory (fs_lookup (fs w') [''proj'', ''out'']))"
proof -
  have c: "cwd demo_world \<noteq> []" "hd (cwd demo_world) = CHR ''/''"
    by (simp_all add: demo_world_def)
  have out: "outputDir_of demo_options demo_world = [''proj'', ''reports'', ''chalisha-reporter'']"
    by code_simp
  have look: "fs_lookup (fs demo_world) [''proj'', ''reports'', ''chalisha-reporter''] =
        Some (Dir [(''result.json'', File ''stale''), (''data'', Dir [(''old.png'', File ''old'')])])"
    by code_simp
  have names: "distinct (map fst [(''result.json'', File ''stale''), (''data'', Dir [(''old.png'', File ''old'')])])
     \<and> (\<forall>f \<in> set (map fst [(''result.json'', File ''stale''), (''data'', Dir [(''old.png'', File ''old'')])]).
          valid_name f)"
    by (simp add: valid_name_def)
  from constructor_empties_or_creates_output_directory [OF c, of demo_options demo_env] out look names
  have cleaned: "\<exists>r w'. new_ChalishaReporter demo_env demo_options demo_world = (Inr r, w')
             \<and> fs_lookup (fs w') [''proj'', ''reports'', ''chalisha-reporter''] = Some (Dir [])"
    by (metis (no_types, lifting))
  define opts where "opts = demo_options\<lparr>opt_reportDir := Some ''out/report''\<rparr>"
  have out2: "outputDir_of opts demo_world = [''proj'', ''out'', ''report'']"
    unfolding opts_def by code_simp
  have none: "fs_lookup (fs demo_world) [''proj'', ''out'', ''report''] = None"
    by code_simp
  have nofile: "\<forall>k \<le> length [''proj'', ''out'', ''report'']. \<forall>c.
                  fs_lookup (fs demo_world) (take k [''proj'', ''out'', ''report'']) \<noteq> Some (File c)"
  proof (intro allI impI)
    fix k :: nat and c
    assume "k \<le> length [''proj'', ''out'', ''report'']"
    then consider "k = 0" | "k = 1" | "k = 2" | "k = 3" by fastforce
    then show "fs_lookup (fs demo_world) (take k [''proj'', ''out'', ''report'']) \<noteq> Some (File c)"
      by cases (simp_all add: demo_world_def)
  qed
  note inst = constructor_empties_or_creates_output_directory [OF c, of opts demo_env, unfolded out2]
  from inst none nofile obtain r w' where
    made: "new_ChalishaReporter demo_env opts demo_world = (Inr r, w')"
    by blast
  from inst none made have top: "fs_lookup (fs w') [''proj'', ''out'', ''report''] = Some (Dir [])"
    and parents: "\<forall>k \<le> length [''proj'', ''out'', ''report''].
           is_directory (fs_lookup (fs w') (take k [''proj'', ''out'', ''report'']))"
    by blast+
  have "Suc (Suc 0) \<le> length [''proj'', ''out'', ''report'']" by simp
  with parents
  have "is_directory (fs_lookup (fs w') (take (Suc (Suc 0)) [''proj'', ''out'', ''report'']))"
    by blast
  with top have "fs_lookup (fs w') [''proj'', ''out'', ''report''] = Some (Dir [])
                 \<and> is_directory (fs_lookup (fs w') [''proj'', ''out''])"
    by simp
  then have created: "\<exists>r w'. new_ChalishaReporter demo_env opts demo_world = (Inr r, w')
             \<and> fs_lookup (fs w') [''proj'', ''out'', ''report''] = Some (Dir [])
             \<and> is_directory (fs_lookup (fs w') [''proj'', ''out''])"
    using made by auto
  from out look cleaned out2 none created show ?thesis
    unfolding opts_def by blast
qed

section \<open>Publishing at exit\<close>

lemma console_log_fs: "fs (console_log msg w) = fs w"
  by (simp add: console_log_def)

lemma upload_preserves_fs:
  "fs (snd (uploadDirectoryToBlobStorage ev pf n remotePath w)) = fs w"
  "fs (snd (uploadFiles ev pf files remotePath w)) = fs w"
proof (induction ev pf n remotePath w and ev pf files remotePath w
       rule: uploadDirectoryToBlobStorage_uploadFiles.induct)
  case (1 ev pf c remotePath w)
  show ?case by (simp add: console_log_fs)
next
  case (2 ev pf files remotePath w)
  then show ?case by (simp add: console_log_fs)
next
  case (3 ev pf remotePath w)
  show ?case by simp
next
  case (4 ev pf name sub files remotePath w)
  then show ?case
    by (auto simp: Let_def split: prod.splits option.splits)
next
  case (5 ev pf name fileContent files remotePath w)
  then show ?case
    by (auto simp: Let_def console_log_fs split: option.splits)
qed

lemma uploadDirectory_fsD:
  "uploadDirectoryToBlobStorage ev pf n rp w' = (x, w'') \<Longrightarrow> fs w'' = fs w'"
  using upload_preserves_fs(1) [of ev pf n rp w'] by simp

lemma uploadPlaywrightReport_body_fs:
  "fs (snd (uploadPlaywrightReport_body ev pf this w)) = fs w"
  unfolding uploadPlaywrightReport_body_def Let_def
  by (auto simp: console_log_def split: option.splits prod.splits dest!: uploadDirectory_fsD)

lemma uploadPlaywrightReport_body_container_error:
  "createIfNotExists ev (up_containerName this) = Some e \<Longrightarrow>
   fst (uploadPlaywrightReport_body ev pf this w) = Some e"
  by (simp add: uploadPlaywrightReport_body_def Let_def)

text \<open>
  C7. When the connection string option is absent at any level of the options, or is
  the empty string, \<open>onExit\<close> returns normally and leaves the world as it was: no uploader
  is constructed, no client is created, no remote call is made, nothing is logged.
\<close>

theorem onExit_without_connection_string_does_nothing:
  "optional_connectionString (options this) = None
     \<or> optional_connectionString (options this) = Some []
   \<Longrightarrow> onExit ev pf this w = (Inr (), w)"
  by (auto simp: onExit_def or_else_def)

theorem onExit_without_connection_string_does_nothing_witness:
  "optional_connectionString (options demo_reporter) = None
   \<and> onExit demo_env Posix demo_reporter demo_world = (Inr (), demo_world)"
proof -
  have none: "optional_connectionString (options demo_reporter) = None"
    by (simp add: optional_connectionString_def demo_options_def demo_reporter_def)
  with onExit_without_connection_string_does_nothing [of demo_reporter demo_env Posix demo_world]
  show ?thesis by simp
qed

text \<open>
  C8. \<open>uploadPlaywrightReport\<close> never throws: whatever the remote store and the file
  system do inside it (container creation, directory listing, file read, upload), the
  method returns normally. It only reads the file system, which is the same afterwards,
  so the report files written before it are untouched. An error raised inside is logged:
  the console gains exactly one line, made of the error's message.
\<close>

theorem uploadPlaywrightReport_swallows_every_error:
  "fst (uploadPlaywrightReport ev pf this w) = Inr ()
   \<and> fs (snd (uploadPlaywrightReport ev pf this w)) = fs w
   \<and> console (snd (uploadPlaywrightReport ev pf this w)) =
       console (snd (uploadPlaywrightReport_body ev pf this w)) @
       (case fst (uploadPlaywrightReport_body ev pf this w) of
          None \<Rightarrow> []
        | Some e \<Rightarrow> [''Error uploading report to Azure Blob Storage: '' @ err_message e])"
  using uploadPlaywrightReport_body_fs [of ev pf this w]
  by (auto simp: uploadPlaywrightReport_def console_log_def split: prod.splits option.splits)

section \<open>Browser contexts\<close>

lemma browserInfo_foldl:
  "own_properties (browserInfo (foldl (\<lambda>this project.
       this\<lparr>browserInfo :=
              setProperty (browserInfo this) (proj_name project) (resolveBrowser project)\<rparr>) r ps)) k =
     (if k = ''__proto__'' then own_properties (browserInfo r) k
      else (case map_of (rev (map (\<lambda>p. (proj_name p, resolveBrowser p)) ps)) k of
              None \<Rightarrow> own_properties (browserInfo r) k
            | Some c \<Rightarrow> Some c))
   \<and> prototype (browserInfo (foldl (\<lambda>this project.
       this\<lparr>browserInfo :=
              setProperty (browserInfo this) (proj_name project) (resolveBrowser project)\<rparr>) r ps)) =
     (case map_of (rev (map (\<lambda>p. (proj_name p, resolveBrowser p)) ps)) ''__proto__'' of
        None \<Rightarrow> prototype (browserInfo r)
      | Some c \<Rightarrow> Some c)"
proof (induction ps arbitrary: r)
  case Nil
  show ?case by simp
next
  case (Cons p ps)
  show ?case
    apply (simp only: foldl_Cons Cons.IH)
    apply (auto simp: map_of_append map_add_def setProperty_def split: option.splits)
    done
qed

lemma onBegin_own_properties:
  "own_properties (browserInfo (onBegin r config allTests)) k =
     (if k = ''__proto__'' then own_properties (browserInfo r) k
      else (case map_of (rev (map (\<lambda>p. (proj_name p, resolveBrowser p)) (projects config))) k of
              None \<Rightarrow> own_properties (browserInfo r) k
            | Some c \<Rightarrow> Some c))"
  by (simp add: onBegin_def browserInfo_foldl cong: option.case_cong)

lemma onBegin_prototype:
  "prototype (browserInfo (onBegin r config allTests)) =
     (case map_of (rev (map (\<lambda>p. (proj_name p, resolveBrowser p)) (projects config))) ''__proto__'' of
        None \<Rightarrow> prototype (browserInfo r)
      | Some c \<Rightarrow> Some c)"
  by (simp add: onBegin_def browserInfo_foldl cong: option.case_cong)

lemma contextProperty_proto: "contextProperty c ''__proto__'' = None"
  by (simp add: contextProperty_def)

text \<open>
  After \<open>onBegin\<close> on the empty object, reading a name gives a context exactly when the
  projects have that name, and then the context of the last project of that name.
\<close>

lemma onBegin_getProperty_stored:
  assumes "browserInfo r = empty_object"
    and "map_of (rev (map (\<lambda>p. (proj_name p, resolveBrowser p)) (projects config))) k = Some c"
  shows "getProperty (browserInfo (onBegin r config allTests)) k = Some (ContextObject c)"
proof (cases "k = ''__proto__''")
  case True
  have "own_properties (browserInfo (onBegin r config allTests)) k = None"
    using assms(1) True by (simp add: onBegin_own_properties empty_object_def)
  moreover have "prototype (browserInfo (onBegin r config allTests)) = Some c"
    using assms(2) True by (simp add: onBegin_prototype)
  ultimately show ?thesis
    using True by (simp add: getProperty_def contextProperty_proto Object_prototype_property_def)
next
  case False
  have "own_properties (browserInfo (onBegin r config allTests)) k = Some c"
    using assms(2) False by (simp add: onBegin_own_properties)
  then show ?thesis by (simp add: getProperty_def)
qed

lemma onBegin_stored_from_project:
  assumes "browserInfo r = empty_object"
    and "own_properties (browserInfo (onBegin r config allTests)) k = Some c
         \<or> (k = ''__proto__'' \<and> prototype (browserInfo (onBegin r config allTests)) = Some c)"
  shows "\<exists>p \<in> set (projects config). proj_name p = k \<and> c = resolveBrowser p"
proof -
  from assms
  have "map_of (rev (map (\<lambda>p. (proj_name p, resolveBrowser p)) (projects config))) k = Some c"
    by (auto simp: onBegin_own_properties onBegin_prototype empty_object_def
             split: option.splits if_splits)
  then have "(k, c) \<in> set (rev (map (\<lambda>p. (proj_name p, resolveBrowser p)) (projects config)))"
    by (rule map_of_SomeD)
  then show ?thesis by auto
qed

lemma onBegin_stores_each_project:
  assumes "browserInfo r = empty_object"
    and "distinct (map proj_name (projects config))" and "p \<in> set (projects config)"
  shows "getProperty (browserInfo (onBegin r config allTests)) (proj_name p) =
           Some (ContextObject (resolveBrowser p))"
proof -
  have "distinct (map fst (rev (map (\<lambda>p. (proj_name p, resolveBrowser p)) (projects config))))"
    using assms(2) by (simp add: rev_map [symmetric] o_def)
  moreover
  have "(proj_name p, resolveBrowser p)
        \<in> set (rev (map (\<lambda>p. (proj_name p, resolveBrowser p)) (projects config)))"
    using assms(3) by auto
  ultimately
  have "map_of (rev (map (\<lambda>p. (proj_name p, resolveBrowser p)) (projects config))) (proj_name p)
        = Some (resolveBrowser p)"
    by (rule map_of_is_SomeI)
  with assms(1) show ?thesis by (rule onBegin_getProperty_stored)
qed

lemma onBegin_project_name_found:
  assumes "browserInfo r = empty_object" and "k \<in> proj_name ` set (projects config)"
  shows "\<exists>c. getProperty (browserInfo (onBegin r config allTests)) k = Some (ContextObject c)"
proof -
  from assms(2)
  have "k \<in> fst ` set (rev (map (\<lambda>p. (proj_name p, resolveBrowser p)) (projects config)))"
    by force
  then obtain c where
    "map_of (rev (map (\<lambda>p. (proj_name p, resolveBrowser p)) (projects config))) k = Some c"
    by (metis map_of_eq_None_iff not_Some_eq)
  with assms(1) have "getProperty (browserInfo (onBegin r config allTests)) k = Some (ContextObject c)"
    by (rule onBegin_getProperty_stored)
  then show ?thesis ..
qed

lemma resolveBrowser_defaults:
  "bc_headless (resolveBrowser p) = (use_headless (proj_use p) = Some True)
   \<and> bc_viewport (resolveBrowser p) =
       (case use_viewport (proj_use p) of
          None \<Rightarrow> \<lparr>width = 1280, height = 720\<rparr>
        | Some v \<Rightarrow> v)
   \<and> bc_isMobile (resolveBrowser p) = (use_isMobile (proj_use p) = Some True)
   \<and> bc_hasTouch (resolveBrowser p) = (use_hasTouch (proj_use p) = Some True)"
  by (auto simp: resolveBrowser_def truthy_def split: option.splits)

lemma countStatus_browserInfo: "browserInfo (countStatus st r) = browserInfo r"
  by (cases st) (simp_all add: countStatus_def)

lemma onTestEnd_browser:
  "onTestEnd r test result w = ((None, r'), w') \<Longrightarrow>
   re_browser (last (testResults r')) =
     or_empty_object (getProperty (browserInfo r) (browserName_of test))"
  by (auto simp: onTestEnd_def Let_def countStatus_browserInfo split: prod.splits sum.splits)

text \<open>
  C10. At run-begin every project's settings are resolved with the defaults filled in:
  \<open>headless\<close>, \<open>isMobile\<close> and \<open>hasTouch\<close> are true only when set to true and false
  otherwise, and the viewport is the configured one or else 1280 by 720. Starting from
  the constructor's empty object, every context that \<open>onBegin\<close> stores (as a property,
  or as the prototype when the project is named \<open>__proto__\<close>) is the resolved context of a
  project of that name, so each has a viewport; with distinct project names, reading the
  object under a project's name gives that project's context. The browser recorded for a
  test is what reading the object under the test's grandparent suite title (or \<open>unknown\<close>)
  gives, or else the empty object; it is the empty object only when no project has that
  name. (A name that no project has can still find an inherited member of the object,
  such as \<open>constructor\<close>, which is then what is recorded.)
\<close>

theorem onBegin_stores_contexts_with_defaults:
  assumes "browserInfo r = empty_object"
  shows "(\<forall>k c. own_properties (browserInfo (onBegin r config allTests)) k = Some c
                 \<or> (k = ''__proto__''
                    \<and> prototype (browserInfo (onBegin r config allTests)) = Some c) \<longrightarrow>
            (\<exists>p \<in> set (projects config). proj_name p = k \<and> c = resolveBrowser p
               \<and> bc_headless c = (use_headless (proj_use p) = Some True)
               \<and> bc_viewport c = (case use_viewport (proj_use p) of
                                    None \<Rightarrow> \<lparr>width = 1280, height = 720\<rparr>
                                  | Some v \<Rightarrow> v)
               \<and> bc_isMobile c = (use_isMobile (proj_use p) = Some True)
               \<and> bc_hasTouch c = (use_hasTouch (proj_use p) = Some True)))
       \<and> (distinct (map proj_name (projects config)) \<longrightarrow>
            (\<forall>p \<in> set (projects config).
               getProperty (browserInfo (onBegin r config allTests)) (proj_name p) =
                 Some (ContextObject (resolveBrowser p))))
       \<and> (\<forall>test result w r' w'.
            onTestEnd (onBegin r config allTests) test result w = ((None, r'), w') \<longrightarrow>
            re_browser (last (testResults r')) =
              or_empty_object
                (getProperty (browserInfo (onBegin r config allTests)) (browserName_of test))
            \<and> (re_browser (last (testResults r')) = EmptyObject \<longrightarrow>
                 browserName_of test \<notin> proj_name ` set (projects config)))"
proof (intro conjI allI impI ballI)
  fix k c
  assume "own_properties (browserInfo (onBegin r config allTests)) k = Some c
          \<or> (k = ''__proto__'' \<and> prototype (browserInfo (onBegin r config allTests)) = Some c)"
  from onBegin_stored_from_project [OF assms this]
  obtain p where "p \<in> set (projects config)" "proj_name p = k" "c = resolveBrowser p"
    by blast
  then show "\<exists>p \<in> set (projects config). proj_name p = k \<and> c = resolveBrowser p
               \<and> bc_headless c = (use_headless (proj_use p) = Some True)
               \<and> bc_viewport c = (case use_viewport (proj_use p) of
                                    None \<Rightarrow> \<lparr>width = 1280, height = 720\<rparr>
                                  | Some v \<Rightarrow> v)
               \<and> bc_isMobile c = (use_isMobile (proj_use p) = Some True)
               \<and> bc_hasTouch c = (use_hasTouch (proj_use p) = Some True)"
    using resolveBrowser_defaults [of p] by blast
next
  fix p
  assume "distinct (map proj_name (projects config))" and "p \<in> set (projects config)"
  with assms
  show "getProperty (browserInfo (onBegin r config allTests)) (proj_name p) =
          Some (ContextObject (resolveBrowser p))"
    by (rule onBegin_stores_each_project)
next
  fix test result w r' w'
  assume "onTestEnd (onBegin r config allTests) test result w = ((None, r'), w')"
  then show "re_browser (last (testResults r')) =
             or_empty_object
               (getProperty (browserInfo (onBegin r config allTests)) (browserName_of test))"
    by (rule onTestEnd_browser)
next
  fix test result w r' w'
  assume run: "onTestEnd (onBegin r config allTests) test result w = ((None, r'), w')"
    and empty: "re_browser (last (testResults r')) = EmptyObject"
  show "browserName_of test \<notin> proj_name ` set (projects config)"
  proof
    assume "browserName_of test \<in> proj_name ` set (projects config)"
    from onBegin_project_name_found [OF assms this] obtain c where
      "getProperty (browserInfo (onBegin r config allTests)) (browserName_of test) =
         Some (ContextObject c)"
      by blast
    with onTestEnd_browser [OF run] have "re_browser (last (testResults r')) = ContextObject c"
      by (simp add: or_empty_object_def)
    with empty show False by simp
  qed
qed

theorem onBegin_stores_contexts_with_defaults_witness:
  "browserInfo demo_reporter = empty_object
   \<and> getProperty (browserInfo (onBegin demo_reporter demo_config [demo_test])) ''phone'' =
       Some (ContextObject
               \<lparr>bc_name = ''phone'', bc_headless = True,
                bc_viewport = \<lparr>width = 390, height = 844\<rparr>,
                bc_isMobile = True, bc_hasTouch = True\<rparr>)
   \<and> fst (fst (onTestEnd (onBegin demo_reporter demo_config [demo_test])
                 demo_test demo_result demo_world)) = None
   \<and> re_browser (last (testResults (snd (fst
        (onTestEnd (onBegin demo_reporter demo_config [demo_test])
           demo_test demo_result demo_world))))) =
       ContextObject
         \<lparr>bc_name = ''chromium'', bc_headless = False,
          bc_viewport = \<lparr>width = 1280, height = 720\<rparr>,
          bc_isMobile = False, bc_hasTouch = False\<rparr>
   \<and> re_browser (last (testResults (snd (fst
        (onTestEnd (onBegin demo_reporter demo_config [demo_test])
           (demo_test\<lparr>tc_parent := Some (Suite ''a.spec.ts'' (Some (Suite ''constructor'' None)))\<rparr>)
           demo_result demo_world))))) =
       BuiltinFunction ''constructor''
   \<and> re_browser (last (testResults (snd (fst
        (onTestEnd (onBegin demo_reporter demo_config [demo_test])
           (demo_test\<lparr>tc_parent := Some (Suite ''a.spec.ts'' None)\<rparr>)
           demo_result demo_world))))) =
       EmptyObject"
proof -
  define rb where "rb = onBegin demo_reporter demo_config [demo_test]"
  define test2 where
    "test2 = demo_test\<lparr>tc_parent := Some (Suite ''a.spec.ts'' (Some (Suite ''constructor'' None)))\<rparr>"
  define test3 where "test3 = demo_test\<lparr>tc_parent := Some (Suite ''a.spec.ts'' None)\<rparr>"
  have empty: "browserInfo demo_reporter = empty_object"
    by (simp add: demo_reporter_def)
  have names: "distinct (map proj_name (projects demo_config))"
    by (simp add: demo_config_def)
  have member:
    "\<lparr>proj_name = ''phone'',
      proj_use = \<lparr>use_headless = Some True,
                  use_viewport = Some \<lparr>width = 390, height = 844\<rparr>,
                  use_isMobile = Some True, use_hasTouch = Some True\<rparr>\<rparr> \<in> set (projects demo_config)"
    by (simp add: demo_config_def)
  note inst = onBegin_stores_contexts_with_defaults [OF empty, of demo_config "[demo_test]",
      folded rb_def]
  from inst names member
  have "getProperty (browserInfo rb) ''phone'' =
       Some (ContextObject (resolveBrowser \<lparr>proj_name = ''phone'',
      proj_use = \<lparr>use_headless = Some True,
                  use_viewport = Some \<lparr>width = 390, height = 844\<rparr>,
                  use_isMobile = Some True, use_hasTouch = Some True\<rparr>\<rparr>))"
    by force
  then have stored: "getProperty (browserInfo rb) ''phone'' =
       Some (ContextObject
               \<lparr>bc_name = ''phone'', bc_headless = True,
                bc_viewport = \<lparr>width = 390, height = 844\<rparr>,
                bc_isMobile = True, bc_hasTouch = True\<rparr>)"
    by (simp add: resolveBrowser_def truthy_def)
  have recorded: "re_browser (last (testResults (snd (fst (onTestEnd rb test demo_result demo_world))))) =
          or_empty_object (getProperty (browserInfo rb) (browserName_of test))"
    if "fst (fst (onTestEnd rb test demo_result demo_world)) = None" for test
  proof -
    from that have "onTestEnd rb test demo_result demo_world =
         ((None, snd (fst (onTestEnd rb test demo_result demo_world))),
          snd (onTestEnd rb test demo_result demo_world))"
      by (metis prod.collapse)
    with inst show ?thesis by blast
  qed
  have run1: "fst (fst (onTestEnd rb demo_test demo_result demo_world)) = None"
    unfolding rb_def by code_simp
  have run2: "fst (fst (onTestEnd rb test2 demo_result demo_world)) = None"
    unfolding rb_def test2_def by code_simp
  have run3: "fst (fst (onTestEnd rb test3 demo_result demo_world)) = None"
    unfolding rb_def test3_def by code_simp
  have read1: "or_empty_object (getProperty (browserInfo rb) (browserName_of demo_test)) =
       ContextObject
         \<lparr>bc_name = ''chromium'', bc_headless = False,
          bc_viewport = \<lparr>width = 1280, height = 720\<rparr>,
          bc_isMobile = False, bc_hasTouch = False\<rparr>"
    unfolding rb_def by code_simp
  have read2: "or_empty_object (getProperty (browserInfo rb) (browserName_of test2)) =
       BuiltinFunction ''constructor''"
    unfolding rb_def test2_def by code_simp
  have read3: "or_empty_object (getProperty (browserInfo rb) (browserName_of test3)) = EmptyObject"
    unfolding rb_def test3_def by code_simp
  from empty stored run1 recorded [OF run1] recorded [OF run2] recorded [OF run3]
    read1 read2 read3
  show ?thesis
    unfolding rb_def test2_def test3_def by simp
qed

section \<open>Facts about attachment relocation\<close>

lemma ext_of_subset: "set (ext_of base) \<subseteq> set base"
proof -
  have "set (takeWhile (\<lambda>c. c \<noteq> CHR ''.'') (rev base)) \<subseteq> set base"
    using set_takeWhileD [of _ "\<lambda>c. c \<noteq> CHR ''.''" "rev base"] by auto
  moreover have "dropWhile (\<lambda>c. c \<noteq> CHR ''.'') (rev base) \<noteq> [] \<Longrightarrow> CHR ''.'' \<in> set base"
    using hd_dropWhile [of "\<lambda>c. c \<noteq> CHR ''.''" "rev base"]
          set_dropWhileD [of _ "\<lambda>c. c \<noteq> CHR ''.''" "rev base"]
    by (metis hd_in_set set_rev)
  ultimately show ?thesis
    by (auto simp: ext_of_def Let_def)
qed

lemma path_extname_no_separator: "CHR ''/'' \<notin> set (path_extname Posix p)"
proof (cases "filter (\<lambda>s. s \<noteq> []) (split_on (isPathSeparator Posix) p) = []")
  case True
  then show ?thesis by (simp add: path_extname_def)
next
  case False
  let ?comps = "filter (\<lambda>s. s \<noteq> []) (split_on (isPathSeparator Posix) p)"
  have "last ?comps \<in> set ?comps" using False by (rule last_in_set)
  then have "last ?comps \<in> set (split_on (isPathSeparator Posix) p)" by simp
  then have "CHR ''/'' \<notin> set (last ?comps)"
    using split_on_segments_free [of "isPathSeparator Posix" p] by auto
  then show ?thesis
    using False ext_of_subset [of "last ?comps"] by (auto simp: path_extname_def Let_def)
qed

lemma uuid_name_valid: "is_uuid u \<Longrightarrow> valid_name (u @ path_extname Posix p)"
proof -
  assume u: "is_uuid u"
  define x where "x = u @ path_extname Posix p"
  have len: "36 \<le> length x" using u by (simp add: is_uuid_def x_def)
  have "CHR ''/'' \<notin> set u" using u by (auto simp: is_uuid_def)
  then have "CHR ''/'' \<notin> set x"
    using path_extname_no_separator [of p] by (simp add: x_def)
  moreover have "x \<noteq> []" "x \<noteq> ''.''" "x \<noteq> ''..''"
    using len by auto
  ultimately show ?thesis by (simp add: valid_name_def x_def)
qed

lemma file_name_of_append:
  assumes n: "CHR ''/'' \<notin> set n" and pre: "pre = [] \<or> last pre = CHR ''/''"
  shows "file_name_of (pre @ n) = n"
proof (cases "pre = []")
  case True
  then show ?thesis using n by (simp add: file_name_of_def split_posix_free)
next
  case False
  define b where "b = butlast pre"
  have "pre = b @ [CHR ''/'']"
    using False pre by (metis append_butlast_last_id b_def)
  then have eq: "pre @ n = b @ CHR ''/'' # n" by simp
  have "split_on (isPathSeparator Posix) (b @ CHR ''/'' # n) =
        split_on (isPathSeparator Posix) b @ split_on (isPathSeparator Posix) n"
    by (rule split_on_append) simp
  then show ?thesis
    using n unfolding file_name_of_def eq by (simp add: split_posix_free)
qed

lemma path_join_last:
  assumes n: "valid_name n"
  shows "\<exists>pre. path_join Posix (args @ [n]) = pre @ n \<and> (pre = [] \<or> last pre = CHR ''/'')"
proof -
  define ps where "ps = filter (\<lambda>arg. arg \<noteq> []) args"
  define joined where "joined = join_with (CHR ''/'') (ps @ [n])"
  have nne: "n \<noteq> []" and nfree: "CHR ''/'' \<notin> set n" and nplain: "plain n"
    using n by (simp_all add: valid_name_def plain_def)
  have "last n \<in> set n" using nne by (rule last_in_set)
  then have nlast: "last n \<noteq> CHR ''/''" using nfree by metis
  have parts: "filter (\<lambda>arg. arg \<noteq> []) (args @ [n]) = ps @ [n]"
    using nne by (simp add: ps_def)
  have join: "path_join Posix (args @ [n]) = path_normalize Posix joined"
    unfolding path_join_def parts joined_def Let_def by simp
  have jshape: "joined = (if ps = [] then n else join_with (CHR ''/'') ps @ CHR ''/'' # n)"
    by (simp add: joined_def join_with_snoc)
  have jne: "joined \<noteq> []" and jlast: "last joined = last n"
    using nne by (auto simp: jshape)
  obtain xs where xs: "split_on (isPathSeparator Posix) joined = xs @ [n]"
  proof (cases "ps = []")
    case True
    then have "split_on (isPathSeparator Posix) joined = [] @ [n]"
      using nfree by (simp add: jshape split_posix_free)
    then show ?thesis by (rule that)
  next
    case False
    have "split_on (isPathSeparator Posix) (join_with (CHR ''/'') ps @ CHR ''/'' # n) =
          split_on (isPathSeparator Posix) (join_with (CHR ''/'') ps) @ split_on (isPathSeparator Posix) n"
      by (rule split_on_append) simp
    then have "split_on (isPathSeparator Posix) joined =
               split_on (isPathSeparator Posix) (join_with (CHR ''/'') ps) @ [n]"
      using False nfree by (simp add: jshape split_posix_free)
    then show ?thesis by (rule that)
  qed
  have norm: "normalize_segments a (split_on (isPathSeparator Posix) joined) =
              normalize_segments a xs @ [n]" for a
    unfolding xs normalize_segments_append
    using nplain by (simp add: normalize_step_def plain_def)
  define ys where "ys = normalize_segments (\<not> isPathSeparator Posix (hd joined)) xs"
  have p: "normalizeString Posix joined (\<not> isPathSeparator Posix (hd joined)) =
           (if ys = [] then n else join_with (CHR ''/'') ys @ CHR ''/'' # n)"
    by (simp add: normalizeString_def norm ys_def join_with_snoc)
  then have pne: "normalizeString Posix joined (\<not> isPathSeparator Posix (hd joined)) \<noteq> []"
    using nne by auto
  have "path_normalize Posix joined =
        ((if isPathSeparator Posix (hd joined) then ''/'' else []) @
         (if ys = [] then [] else join_with (CHR ''/'') ys @ ''/'')) @ n"
    using jne nlast pne p by (simp add: path_normalize_def Let_def jlast)
  moreover have "(if isPathSeparator Posix (hd joined) then ''/'' else []) @
         (if ys = [] then [] else join_with (CHR ''/'') ys @ ''/'') = [] \<or>
       last ((if isPathSeparator Posix (hd joined) then ''/'' else []) @
         (if ys = [] then [] else join_with (CHR ''/'') ys @ ''/'')) = CHR ''/''"
    by simp
  ultimately show ?thesis
    unfolding join by blast
qed

lemma file_name_of_path_join:
  "valid_name n \<Longrightarrow> file_name_of (path_join Posix (args @ [n])) = n"
proof -
  assume n: "valid_name n"
  from path_join_last [OF n, of args] obtain pre where
    "path_join Posix (args @ [n]) = pre @ n" "pre = [] \<or> last pre = CHR ''/''"
    by blast
  then show ?thesis
    using n file_name_of_append [of n pre] by (simp add: valid_name_def)
qed


lemma mkdirSync_frame:
  "mkdirSync_recursive w p = Inr w' \<Longrightarrow>
   cwd w' = cwd w \<and> uuid_source w' = uuid_source w \<and> uuid_next w' = uuid_next w"
  by (auto simp: mkdirSync_recursive_def split: sum.splits)

lemma copyFileSync_frame:
  "copyFileSync w src dest = Inr w' \<Longrightarrow>
   cwd w' = cwd w \<and> uuid_source w' = uuid_source w \<and> uuid_next w' = uuid_next w"
  by (auto simp: copyFileSync_def split: sum.splits)

lemma updateAttachment_passes_through:
  "att_path a = None \<or> att_path a = Some [] \<Longrightarrow> updateAttachment r a w = (Inr a, w)"
  by (auto simp: updateAttachment_def)

lemma updateAttachment_relocates:
  assumes "att_path a = Some p" and "p \<noteq> []" and "updateAttachment r a w = (Inr a', w')"
  shows "att_path a' =
           Some (path_join Posix
                   [reportDir r, ''data'', uuid_source w (uuid_next w) @ path_extname Posix p])
         \<and> att_url a' =
             Some (''./'' @ path_relative (cwd w) (projectRoot r)
                     (path_join Posix
                        [reportDir r, ''data'', uuid_source w (uuid_next w) @ path_extname Posix p]))
         \<and> uuid_next w' = Suc (uuid_next w) \<and> uuid_source w' = uuid_source w \<and> cwd w' = cwd w"
  using assms
  by (auto simp: updateAttachment_def uuidv4_def Let_def
           split: sum.splits if_splits dest!: mkdirSync_frame copyFileSync_frame)

lemma path_normalize_not_Nil: "path_normalize pf p \<noteq> []"
  by (simp add: path_normalize_def Let_def)

lemma path_join_not_Nil: "path_join pf args \<noteq> []"
  by (simp add: path_join_def Let_def path_normalize_not_Nil)

lemma updatedAttachments_paths:
  "updatedAttachments r attachments w = (Inr updated, w') \<Longrightarrow>
   local_paths updated =
     map (\<lambda>name. path_join Posix [reportDir r, ''data'', name])
       (new_names (uuid_source w) (uuid_next w) (local_paths attachments))"
proof (induction attachments arbitrary: w updated w')
  case Nil
  then show ?case by (simp add: local_paths_def)
next
  case (Cons a rest)
  from Cons.prems obtain a' w1 upd where
    a': "updateAttachment r a w = (Inr a', w1)"
    and rest: "updatedAttachments r rest w1 = (Inr upd, w')"
    and updated: "updated = a' # upd"
    by (auto split: prod.splits sum.splits)
  note IH = Cons.IH [OF rest]
  show ?case
  proof (cases "att_path a = None \<or> att_path a = Some []")
    case True
    with a' have "a' = a" "w1 = w"
      using updateAttachment_passes_through [OF True, of r w] by simp_all
    with IH True show ?thesis
      by (auto simp: updated local_paths_def)
  next
    case False
    then obtain p where p: "att_path a = Some p" "p \<noteq> []" by auto
    from updateAttachment_relocates [OF p a'] IH p show ?thesis
      by (simp add: updated local_paths_def path_join_not_Nil)
  qed
qed

lemma new_names_members:
  "x \<in> set (new_names src m ps) \<Longrightarrow> \<exists>k e. m \<le> k \<and> k < m + length ps \<and> x = src k @ e"
proof (induction ps arbitrary: m)
  case Nil
  then show ?case by simp
next
  case (Cons p ps)
  show ?case
  proof (cases "x = src m @ path_extname Posix p")
    case True
    then show ?thesis by (intro exI [of _ m]) auto
  next
    case False
    with Cons.prems have "x \<in> set (new_names src (Suc m) ps)" by simp
    from Cons.IH [OF this] obtain k e where "Suc m \<le> k" "k < Suc m + length ps" "x = src k @ e"
      by blast
    then show ?thesis by (intro exI [of _ k] exI [of _ e]) simp
  qed
qed

lemma new_names_distinct:
  assumes "\<forall>k. is_uuid (src k)"
  shows "inj_on src {m ..< m + length ps} \<Longrightarrow> distinct (new_names src m ps)"
proof (induction ps arbitrary: m)
  case Nil
  show ?case by simp
next
  case (Cons p ps)
  have sub: "{Suc m ..< Suc m + length ps} \<subseteq> {m ..< m + length (p # ps)}" by auto
  have "inj_on src {Suc m ..< Suc m + length ps}"
    using Cons.prems sub by (rule inj_on_subset)
  then have tail: "distinct (new_names src (Suc m) ps)" by (rule Cons.IH)
  have "src m @ path_extname Posix p \<notin> set (new_names src (Suc m) ps)"
  proof
    assume "src m @ path_extname Posix p \<in> set (new_names src (Suc m) ps)"
    from new_names_members [OF this] obtain k e where
      k: "Suc m \<le> k" "k < Suc m + length ps" and eq: "src m @ path_extname Posix p = src k @ e"
      by blast
    have "length (src m) = length (src k)"
      using assms by (simp add: is_uuid_def)
    with eq have "src m = src k" by simp
    moreover have "m \<in> {m ..< m + length (p # ps)}" "k \<in> {m ..< m + length (p # ps)}"
      using k by auto
    ultimately have "m = k" using Cons.prems by (meson inj_onD)
    with k show False by simp
  qed
  with tail show ?case by simp
qed

lemma new_names_file_names:
  assumes "\<forall>k. is_uuid (src k)"
  shows "map file_name_of (map (\<lambda>name. path_join Posix [rd, ''data'', name]) (new_names src m ps))
         = new_names src m ps"
proof (induction ps arbitrary: m)
  case Nil
  show ?case by simp
next
  case (Cons p ps)
  have "valid_name (src m @ path_extname Posix p)"
    using assms by (simp add: uuid_name_valid)
  from file_name_of_path_join [OF this, of "[rd, ''data'']"] Cons.IH show ?case
    by simp
qed


lemma put_file_other:
  "put_file p c root = Inr root' \<Longrightarrow> q \<noteq> p \<Longrightarrow> fs_lookup root q = Some (File d) \<Longrightarrow>
   fs_lookup root' q = Some (File d)"
proof (induction p c root arbitrary: root' q rule: put_file.induct)
  case (1 content n)
  then show ?case by simp
next
  case (2 s ss content c)
  then show ?case by simp
next
  case (3 s ss content es)
  from "3.prems"(3) obtain t ts where q: "q = t # ts" by (cases q) auto
  show ?case
  proof (cases "t = s")
    case False
    with "3.prems" q show ?thesis
      by (auto simp: map_of_update split: if_splits option.splits node.splits sum.splits)
  next
    case True
    show ?thesis
    proof (cases "ss = []")
      case True
      with "3.prems" q \<open>t = s\<close> show ?thesis
        by (cases ts) (auto simp: map_of_update split: option.splits node.splits)
    next
      case False
      with "3.prems"(1) obtain ch ch' where
        ch: "map_of es s = Some ch" "put_file ss content ch = Inr ch'"
            "root' = Dir (AList.update s ch' es)"
        by (auto split: option.splits sum.splits)
      from "3.prems"(2,3) q \<open>t = s\<close> ch have "ts \<noteq> ss" "fs_lookup ch ts = Some (File d)"
        by auto
      from "3.IH" [OF False ch(1,2) this] show ?thesis
        by (simp add: q \<open>t = s\<close> ch(3) map_of_update)
    qed
  qed
qed

lemma put_file_result:
  "put_file p c root = Inr root' \<Longrightarrow> fs_lookup root' p = Some (File c)"
proof (induction p c root arbitrary: root' rule: put_file.induct)
  case (1 content n)
  then show ?case by simp
next
  case (2 s ss content c)
  then show ?case by simp
next
  case (3 s ss content es)
  show ?case
  proof (cases "ss = []")
    case True
    with "3.prems" show ?thesis
      by (auto simp: map_of_update split: option.splits node.splits)
  next
    case False
    with "3.prems" obtain ch ch' where
      ch: "map_of es s = Some ch" "put_file ss content ch = Inr ch'"
          "root' = Dir (AList.update s ch' es)"
      by (auto split: option.splits sum.splits)
    from "3.IH" [OF False ch(1,2)] show ?thesis
      by (simp add: ch(3) map_of_update)
  qed
qed

lemma mkdir_p_other:
  "mkdir_p p root = Inr root' \<Longrightarrow> fs_lookup root q = Some (File d) \<Longrightarrow>
   fs_lookup root' q = Some (File d)"
proof (induction p root arbitrary: root' q rule: mkdir_p.induct)
  case (1 es)
  then show ?case by simp
next
  case (2 c)
  then show ?case by simp
next
  case (3 s ss c)
  then show ?case by simp
next
  case (4 s ss es)
  from "4.prems"(2) obtain t ts where q: "q = t # ts" by (cases q) auto
  from "4.prems"(2) q obtain ch0 where ch0: "map_of es t = Some ch0" "fs_lookup ch0 ts = Some (File d)"
    by (auto split: option.splits)
  show ?case
  proof (cases "map_of es s")
    case None
    with "4.prems"(1) obtain ch where "root' = Dir (es @ [(s, ch)])"
      by (auto split: sum.splits)
    then show ?thesis
      using ch0 by (simp add: q map_of_append map_add_def)
  next
    case (Some m)
    with "4.prems"(1) obtain m' where m': "mkdir_p ss m = Inr m'" "root' = Dir (AList.update s m' es)"
      by (auto split: sum.splits)
    show ?thesis
    proof (cases "t = s")
      case True
      with ch0 Some have "fs_lookup m ts = Some (File d)" by simp
      from "4.IH"(2) [OF Some m'(1) this] show ?thesis
        by (simp add: q True m'(2) map_of_update)
    next
      case False
      then show ?thesis using ch0 by (simp add: q m'(2) map_of_update)
    qed
  qed
qed


lemma mkdirSync_keeps_files:
  "mkdirSync_recursive w p = Inr w' \<Longrightarrow> fs_lookup (fs w) q = Some (File d) \<Longrightarrow>
   fs_lookup (fs w') q = Some (File d)"
proof -
  assume ok: "mkdirSync_recursive w p = Inr w'" and q: "fs_lookup (fs w) q = Some (File d)"
  from ok obtain n where n: "mkdir_p (abs_segments (cwd w) p) (fs w) = Inr n" "w' = w\<lparr>fs := n\<rparr>"
    by (auto simp: mkdirSync_recursive_def split: sum.splits)
  from mkdir_p_other [OF n(1) q] show ?thesis by (simp add: n(2))
qed

lemma copyFileSync_keeps_files:
  "copyFileSync w src dest = Inr w' \<Longrightarrow> q \<noteq> abs_segments (cwd w) dest \<Longrightarrow>
   fs_lookup (fs w) q = Some (File d) \<Longrightarrow> fs_lookup (fs w') q = Some (File d)"
proof -
  assume ok: "copyFileSync w src dest = Inr w'" and neq: "q \<noteq> abs_segments (cwd w) dest"
    and q: "fs_lookup (fs w) q = Some (File d)"
  from ok obtain content n where
    n: "put_file (abs_segments (cwd w) dest) content (fs w) = Inr n" "w' = w\<lparr>fs := n\<rparr>"
    by (auto simp: copyFileSync_def split: sum.splits)
  from put_file_other [OF n(1) neq q] show ?thesis by (simp add: n(2))
qed

lemma copyFileSync_copies:
  "copyFileSync w src dest = Inr w' \<Longrightarrow> readFileSync w src = Inr d \<Longrightarrow>
   readFileSync w' dest = Inr d"
proof -
  assume ok: "copyFileSync w src dest = Inr w'" and src: "readFileSync w src = Inr d"
  from ok src obtain n where
    n: "put_file (abs_segments (cwd w) dest) d (fs w) = Inr n" "w' = w\<lparr>fs := n\<rparr>"
    by (auto simp: copyFileSync_def split: sum.splits)
  from put_file_result [OF n(1)] show ?thesis
    by (simp add: readFileSync_def n(2))
qed

lemma updateAttachment_unfold:
  assumes "att_path a = Some p" "p \<noteq> []"
  shows "updateAttachment r a w =
     (case (if \<not> existsSync (w\<lparr>uuid_next := Suc (uuid_next w)\<rparr>)
                  (path_resolve (cwd w) [projectRoot r, reportDir r, ''data''])
            then mkdirSync_recursive (w\<lparr>uuid_next := Suc (uuid_next w)\<rparr>)
                   (path_resolve (cwd w) [projectRoot r, reportDir r, ''data''])
            else Inr (w\<lparr>uuid_next := Suc (uuid_next w)\<rparr>)) of
        Inl e \<Rightarrow> (Inl e, w\<lparr>uuid_next := Suc (uuid_next w)\<rparr>)
      | Inr w2 \<Rightarrow>
          (case copyFileSync w2 p
                  (path_join Posix
                     [reportDir r, ''data'', uuid_source w (uuid_next w) @ path_extname Posix p]) of
             Inl e \<Rightarrow> (Inl e, w2)
           | Inr w3 \<Rightarrow>
               (Inr (a\<lparr>att_path := Some (path_join Posix
                     [reportDir r, ''data'', uuid_source w (uuid_next w) @ path_extname Posix p]),
                       att_url := Some (''./'' @ path_relative (cwd w3) (projectRoot r)
                         (path_join Posix
                     [reportDir r, ''data'', uuid_source w (uuid_next w) @ path_extname Posix p]))\<rparr>),
                w3)))"
  using assms unfolding updateAttachment_def uuidv4_def Let_def by simp

lemma updateAttachment_keeps_files:
  assumes q: "fs_lookup (fs w) q = Some (File d)"
    and other: "\<forall>p. att_path a = Some p \<and> p \<noteq> [] \<longrightarrow>
              q \<noteq> abs_segments (cwd w)
                    (path_join Posix
                       [reportDir r, ''data'', uuid_source w (uuid_next w) @ path_extname Posix p])"
  shows "fs_lookup (fs (snd (updateAttachment r a w))) q = Some (File d)"
proof (cases "att_path a = None \<or> att_path a = Some []")
  case True
  then show ?thesis
    using q by (simp add: updateAttachment_passes_through)
next
  case False
  then obtain p where p: "att_path a = Some p" "p \<noteq> []" by auto
  define w1 where "w1 = w\<lparr>uuid_next := Suc (uuid_next w)\<rparr>"
  define np where "np = path_join Posix
                          [reportDir r, ''data'', uuid_source w (uuid_next w) @ path_extname Posix p]"
  define od where "od = path_resolve (cwd w) [projectRoot r, reportDir r, ''data'']"
  define made where "made = (if \<not> existsSync w1 od then mkdirSync_recursive w1 od else Inr w1)"
  have q1: "fs_lookup (fs w1) q = Some (File d)" using q by (simp add: w1_def)
  have neq: "q \<noteq> abs_segments (cwd w) np"
    using other p by (simp add: np_def)
  have unfold: "updateAttachment r a w =
     (case made of
        Inl e \<Rightarrow> (Inl e, w1)
      | Inr w2 \<Rightarrow>
          (case copyFileSync w2 p np of
             Inl e \<Rightarrow> (Inl e, w2)
           | Inr w3 \<Rightarrow>
               (Inr (a\<lparr>att_path := Some np,
                       att_url := Some (''./'' @ path_relative (cwd w3) (projectRoot r) np)\<rparr>),
                w3)))"
    unfolding made_def w1_def np_def od_def by (rule updateAttachment_unfold [OF p])
  show ?thesis
  proof (cases made)
    case (Inl e)
    then show ?thesis using q1 by (simp add: unfold)
  next
    case (Inr w2)
    have q2: "fs_lookup (fs w2) q = Some (File d)" and c2: "cwd w2 = cwd w"
    proof -
      show "fs_lookup (fs w2) q = Some (File d)"
      proof (cases "existsSync w1 od")
        case True
        with Inr have "w2 = w1" by (simp add: made_def)
        then show ?thesis using q1 by simp
      next
        case False
        with Inr have "mkdirSync_recursive w1 od = Inr w2" by (simp add: made_def)
        from mkdirSync_keeps_files [OF this q1] show ?thesis .
      qed
      show "cwd w2 = cwd w"
      proof (cases "existsSync w1 od")
        case True
        with Inr have "w2 = w1" by (simp add: made_def)
        then show ?thesis by (simp add: w1_def)
      next
        case False
        with Inr have "mkdirSync_recursive w1 od = Inr w2" by (simp add: made_def)
        from mkdirSync_frame [OF this] show ?thesis by (simp add: w1_def)
      qed
    qed
    show ?thesis
    proof (cases "copyFileSync w2 p np")
      case (Inl e)
      then show ?thesis using q2 Inr by (simp add: unfold)
    next
      case copied: (Inr w3)
      from neq c2 have "q \<noteq> abs_segments (cwd w2) np" by simp
      from copyFileSync_keeps_files [OF copied this q2] show ?thesis
        using Inr copied by (simp add: unfold)
    qed
  qed
qed

lemma destinations_Cons_pass:
  "att_path a = None \<or> att_path a = Some [] \<Longrightarrow>
   destinations r w (a # rest) = destinations r w rest"
  by (auto simp: destinations_def local_paths_def)

lemma destinations_Cons_relocated:
  assumes "att_path a = Some p" "p \<noteq> []"
    and "uuid_next w1 = Suc (uuid_next w)" "uuid_source w1 = uuid_source w" "cwd w1 = cwd w"
  shows "destinations r w (a # rest) =
           abs_segments (cwd w)
             (path_join Posix
                [reportDir r, ''data'', uuid_source w (uuid_next w) @ path_extname Posix p])
           # destinations r w1 rest"
  using assms by (simp add: destinations_def local_paths_def)

lemma updatedAttachments_keeps_files:
  "fs_lookup (fs w) q = Some (File d) \<Longrightarrow> q \<notin> set (destinations r w attachments) \<Longrightarrow>
   fs_lookup (fs (snd (updatedAttachments r attachments w))) q = Some (File d)"
proof (induction attachments arbitrary: w)
  case Nil
  then show ?case by simp
next
  case (Cons a rest)
  obtain res w1 where step: "updateAttachment r a w = (res, w1)"
    by (cases "updateAttachment r a w")
  show ?case
  proof (cases "att_path a = None \<or> att_path a = Some []")
    case True
    then have same: "res = Inr a" "w1 = w"
      using step updateAttachment_passes_through [OF True, of r w] by simp_all
    obtain res2 w2 where rest: "updatedAttachments r rest w = (res2, w2)"
      by (cases "updatedAttachments r rest w")
    have "fs_lookup (fs (snd (updatedAttachments r rest w))) q = Some (File d)"
      using Cons.prems destinations_Cons_pass [OF True, of r w rest]
      by (intro Cons.IH) simp_all
    then show ?thesis
      by (cases res2) (simp_all add: step same rest)
  next
    case False
    then obtain p where p: "att_path a = Some p" "p \<noteq> []" by auto
    have dest: "abs_segments (cwd w)
             (path_join Posix
                [reportDir r, ''data'', uuid_source w (uuid_next w) @ path_extname Posix p])
          \<in> set (destinations r w (a # rest))"
      using p by (simp add: destinations_def local_paths_def)
    have "\<forall>p. att_path a = Some p \<and> p \<noteq> [] \<longrightarrow>
              q \<noteq> abs_segments (cwd w)
                    (path_join Posix
                       [reportDir r, ''data'', uuid_source w (uuid_next w) @ path_extname Posix p])"
      using Cons.prems(2) dest p by auto
    from updateAttachment_keeps_files [OF Cons.prems(1) this]
    have q1: "fs_lookup (fs w1) q = Some (File d)" by (simp add: step)
    show ?thesis
    proof (cases res)
      case (Inl e)
      then show ?thesis using q1 by (simp add: step)
    next
      case (Inr a')
      from updateAttachment_relocates [OF p] step Inr
      have frame: "uuid_next w1 = Suc (uuid_next w)" "uuid_source w1 = uuid_source w" "cwd w1 = cwd w"
        by simp_all
      have "q \<notin> set (destinations r w1 rest)"
        using Cons.prems(2) destinations_Cons_relocated [OF p frame, of r rest] by simp
      obtain res2 w2 where rest: "updatedAttachments r rest w1 = (res2, w2)"
        by (cases "updatedAttachments r rest w1")
      from Cons.IH [OF q1 \<open>q \<notin> set (destinations r w1 rest)\<close>] show ?thesis
        by (cases res2) (simp_all add: step Inr rest)
    qed
  qed
qed

lemma updateAttachment_copies:
  assumes p: "att_path a = Some p" "p \<noteq> []"
    and src: "fs_lookup (fs w) (abs_segments (cwd w) p) = Some (File d)"
    and ok: "updateAttachment r a w = (Inr a', w')"
  shows "fs_lookup (fs w')
           (abs_segments (cwd w)
              (path_join Posix
                 [reportDir r, ''data'', uuid_source w (uuid_next w) @ path_extname Posix p])) =
         Some (File d)"
proof -
  define w1 where "w1 = w\<lparr>uuid_next := Suc (uuid_next w)\<rparr>"
  define np where "np = path_join Posix
                          [reportDir r, ''data'', uuid_source w (uuid_next w) @ path_extname Posix p]"
  define od where "od = path_resolve (cwd w) [projectRoot r, reportDir r, ''data'']"
  define made where "made = (if \<not> existsSync w1 od then mkdirSync_recursive w1 od else Inr w1)"
  have unfold: "updateAttachment r a w =
     (case made of
        Inl e \<Rightarrow> (Inl e, w1)
      | Inr w2 \<Rightarrow>
          (case copyFileSync w2 p np of
             Inl e \<Rightarrow> (Inl e, w2)
           | Inr w3 \<Rightarrow>
               (Inr (a\<lparr>att_path := Some np,
                       att_url := Some (''./'' @ path_relative (cwd w3) (projectRoot r) np)\<rparr>),
                w3)))"
    unfolding made_def w1_def np_def od_def by (rule updateAttachment_unfold [OF p])
  from ok obtain w2 where w2: "made = Inr w2" and copy: "copyFileSync w2 p np = Inr w'"
    unfolding unfold by (auto split: sum.splits)
  from src have src1: "fs_lookup (fs w1) (abs_segments (cwd w1) p) = Some (File d)"
    by (simp add: w1_def)
  have "fs_lookup (fs w2) (abs_segments (cwd w2) p) = Some (File d)"
  proof (cases "existsSync w1 od")
    case True
    with w2 have "w2 = w1" by (simp add: made_def)
    then show ?thesis using src1 by simp
  next
    case False
    with w2 have mk: "mkdirSync_recursive w1 od = Inr w2" by (simp add: made_def)
    from mkdirSync_keeps_files [OF mk src1] mkdirSync_frame [OF mk] show ?thesis by simp
  qed
  then have "readFileSync w2 p = Inr d" by (simp add: readFileSync_def)
  from copyFileSync_copies [OF copy this]
  have "fs_lookup (fs w') (abs_segments (cwd w') np) = Some (File d)"
    by (auto simp: readFileSync_def split: option.splits node.splits)
  moreover have "cwd w' = cwd w"
    using updateAttachment_relocates [OF p ok] by simp
  ultimately show ?thesis by (simp add: np_def)
qed

lemma local_paths_Cons_pass:
  "att_path a = None \<or> att_path a = Some [] \<Longrightarrow> local_paths (a # rest) = local_paths rest"
  by (auto simp: local_paths_def)

lemma local_paths_Cons_relocated:
  "att_path a = Some p \<Longrightarrow> p \<noteq> [] \<Longrightarrow> local_paths (a # rest) = p # local_paths rest"
  by (simp add: local_paths_def)

text \<open>
  A completed relocation call: the attachment at index \<open>i\<close>, whose source is a file,
  gets the path \<open>relocated_path\<close> names, and the file there has the source's content
  when the call returns.
\<close>

lemma updatedAttachments_copies:
  assumes "updatedAttachments r attachments w = (Inr updated, w')"
    and "i < length attachments" and "att_path (attachments ! i) = Some p" and "p \<noteq> []"
    and "fs_lookup (fs w) (abs_segments (cwd w) p) = Some (File d)"
    and "abs_segments (cwd w) p \<notin> set (destinations r w attachments)"
    and "distinct (destinations r w attachments)"
  shows "att_path (updated ! i) = Some (relocated_path r w attachments i p)
         \<and> abs_segments (cwd w) (relocated_path r w attachments i p)
             \<in> set (destinations r w attachments)
         \<and> fs_lookup (fs w') (abs_segments (cwd w) (relocated_path r w attachments i p)) =
             Some (File d)"
  using assms
proof (induction attachments arbitrary: w updated i)
  case Nil
  then show ?case by simp
next
  case (Cons a rest)
  from Cons.prems(1) obtain a' w1 upd where
    a': "updateAttachment r a w = (Inr a', w1)"
    and rest: "updatedAttachments r rest w1 = (Inr upd, w')"
    and updated: "updated = a' # upd"
    by (auto split: prod.splits sum.splits)
  show ?case
  proof (cases "att_path a = None \<or> att_path a = Some []")
    case True
    then have same: "a' = a" "w1 = w"
      using a' updateAttachment_passes_through [OF True, of r w] by simp_all
    have dests: "destinations r w (a # rest) = destinations r w rest"
      using True by (rule destinations_Cons_pass)
    from True Cons.prems(2,3,4) obtain j where j: "i = Suc j"
      by (cases i) auto
    have paths: "relocated_path r w (a # rest) (Suc j) p = relocated_path r w rest j p"
      using True by (simp add: relocated_path_def local_paths_Cons_pass)
    from Cons.IH [of w upd j] rest Cons.prems(2-7) show ?thesis
      unfolding j paths dests updated by (simp add: same)
  next
    case False
    then obtain q where q: "att_path a = Some q" "q \<noteq> []" by auto
    from updateAttachment_relocates [OF q a']
    have path': "att_path a' =
           Some (path_join Posix
                   [reportDir r, ''data'', uuid_source w (uuid_next w) @ path_extname Posix q])"
      and frame: "uuid_next w1 = Suc (uuid_next w)" "uuid_source w1 = uuid_source w" "cwd w1 = cwd w"
      by simp_all
    define dst where "dst = abs_segments (cwd w)
             (path_join Posix
                [reportDir r, ''data'', uuid_source w (uuid_next w) @ path_extname Posix q])"
    have dests: "destinations r w (a # rest) = dst # destinations r w1 rest"
      unfolding dst_def by (rule destinations_Cons_relocated [OF q frame])
    from Cons.prems(7) have fresh: "dst \<notin> set (destinations r w1 rest)"
      and dist: "distinct (destinations r w1 rest)"
      by (simp_all add: dests)
    show ?thesis
    proof (cases i)
      case 0
      with Cons.prems(3) q have pq: "p = q" by simp
      have np: "relocated_path r w (a # rest) 0 p =
                path_join Posix
                  [reportDir r, ''data'', uuid_source w (uuid_next w) @ path_extname Posix q]"
        by (simp add: relocated_path_def local_paths_def pq)
      from Cons.prems(5) have "fs_lookup (fs w) (abs_segments (cwd w) q) = Some (File d)"
        by (simp add: pq)
      from updateAttachment_copies [OF q this a']
      have "fs_lookup (fs w1) dst = Some (File d)" by (simp add: dst_def)
      from updatedAttachments_keeps_files [OF this fresh]
      have "fs_lookup (fs w') dst = Some (File d)" by (simp add: rest)
      then show ?thesis
        unfolding 0 np updated by (simp add: path' dests dst_def)
    next
      case (Suc j)
      from Cons.prems(6) have pd: "abs_segments (cwd w) p \<noteq> dst"
        and pr: "abs_segments (cwd w1) p \<notin> set (destinations r w1 rest)"
        by (simp_all add: dests frame)
      have "\<forall>p'. att_path a = Some p' \<and> p' \<noteq> [] \<longrightarrow>
              abs_segments (cwd w) p \<noteq> abs_segments (cwd w)
                    (path_join Posix
                       [reportDir r, ''data'', uuid_source w (uuid_next w) @ path_extname Posix p'])"
        using pd q by (simp add: dst_def)
      from updateAttachment_keeps_files [OF Cons.prems(5) this]
      have src1: "fs_lookup (fs w1) (abs_segments (cwd w1) p) = Some (File d)"
        by (simp add: a' frame)
      have paths: "relocated_path r w (a # rest) (Suc j) p = relocated_path r w1 rest j p"
        using q by (simp add: relocated_path_def local_paths_Cons_relocated frame)
      from Cons.prems(2,3) have j: "j < length rest" "att_path (rest ! j) = Some p"
        by (simp_all add: Suc)
      from Cons.IH [OF rest j Cons.prems(4) src1 pr dist] show ?thesis
        unfolding Suc paths dests updated by (simp add: frame)
    qed
  qed
qed

lemma updatedAttachments_length:
  "updatedAttachments r attachments w = (Inr updated, w') \<Longrightarrow> length updated = length attachments"
proof (induction attachments arbitrary: w updated)
  case Nil
  then show ?case by simp
next
  case (Cons a rest)
  from Cons.prems obtain a' w1 upd where
    "updatedAttachments r rest w1 = (Inr upd, w')" "updated = a' # upd"
    by (auto split: prod.splits sum.splits)
  with Cons.IH show ?case by simp
qed

text \<open>
  With identifiers that are UUID strings and pairwise different, the destinations of one
  call are pairwise different paths: each ends with its generated file name.
\<close>

lemma abs_segments_join_last:
  assumes n: "valid_name n"
  shows "last (abs_segments c (path_join Posix (args @ [n]))) = n"
proof -
  from path_join_last [OF n, of args] obtain pre where
    pre: "path_join Posix (args @ [n]) = pre @ n" "pre = [] \<or> last pre = CHR ''/''"
    by blast
  have nne: "n \<noteq> []" and nfree: "CHR ''/'' \<notin> set n" and nplain: "plain n"
    using n by (simp_all add: valid_name_def plain_def)
  have "hd n \<in> set n" using nne by (rule hd_in_set)
  then have nhd: "hd n \<noteq> CHR ''/''" using nfree by metis
  define x where "x = (if pre @ n \<noteq> [] \<and> hd (pre @ n) = CHR ''/'' then pre @ n
                       else c @ ''/'' @ pre @ n)"
  have "\<exists>b. x = b @ CHR ''/'' # n"
  proof (cases "pre = []")
    case True
    then have "x = c @ CHR ''/'' # n" using nhd nne by (simp add: x_def)
    then show ?thesis ..
  next
    case False
    then have "pre = butlast pre @ [CHR ''/'']"
      using pre(2) by (metis append_butlast_last_id)
    then obtain b0 where b0: "pre = b0 @ [CHR ''/'']" ..
    show ?thesis
    proof (cases "pre @ n \<noteq> [] \<and> hd (pre @ n) = CHR ''/''")
      case True
      then have "x = b0 @ CHR ''/'' # n" by (simp add: x_def b0)
      then show ?thesis ..
    next
      case False
      then have "x = (c @ ''/'' @ b0) @ CHR ''/'' # n" by (simp add: x_def b0)
      then show ?thesis ..
    qed
  qed
  then obtain b where b: "x = b @ CHR ''/'' # n" ..
  have "split_on (isPathSeparator Posix) (b @ CHR ''/'' # n) =
        split_on (isPathSeparator Posix) b @ split_on (isPathSeparator Posix) n"
    by (rule split_on_append) simp
  then have sp: "split_on (isPathSeparator Posix) x = split_on (isPathSeparator Posix) b @ [n]"
    using nfree by (simp add: b split_posix_free)
  have "normalize_segments False (split_on (isPathSeparator Posix) b @ [n]) =
        normalize_segments False (split_on (isPathSeparator Posix) b) @ [n]"
    unfolding normalize_segments_append
    using nplain by (simp add: normalize_step_def plain_def)
  then have "last (normalize_segments False (split_on (isPathSeparator Posix) x)) = n"
    by (simp add: sp)
  then show ?thesis
    by (simp add: abs_segments_def pre(1) x_def)
qed

lemma destinations_distinct:
  assumes "\<forall>k. is_uuid (uuid_source w k)"
    and "inj_on (uuid_source w) {uuid_next w ..< uuid_next w + length (local_paths attachments)}"
  shows "distinct (destinations r w attachments)"
proof -
  have "map last (map (\<lambda>name. abs_segments c (path_join Posix [rd, ''data'', name]))
                    (new_names (uuid_source w) m ps)) =
        new_names (uuid_source w) m ps" for c rd m ps
  proof (induction ps arbitrary: m)
    case Nil
    show ?case by simp
  next
    case (Cons p ps)
    have "valid_name (uuid_source w m @ path_extname Posix p)"
      using assms(1) by (simp add: uuid_name_valid)
    from abs_segments_join_last [OF this, of c "[rd, ''data'']"] Cons.IH show ?case
      by simp
  qed
  then have "map last (destinations r w attachments) =
             new_names (uuid_source w) (uuid_next w) (local_paths attachments)"
    by (simp add: destinations_def)
  moreover have "distinct (new_names (uuid_source w) (uuid_next w) (local_paths attachments))"
    using assms by (rule new_names_distinct)
  ultimately have "distinct (map last (destinations r w attachments))" by simp
  then show ?thesis by (simp add: distinct_map)
qed

section \<open>Attachment relocation\<close>

lemma new_names_length: "length (new_names src m ps) = length ps"
  by (induction ps arbitrary: m) simp_all

text \<open>
  C6. Within one relocation call, given that the identifier generator hands out UUID
  strings that are pairwise different over the identifiers this call draws, the
  attachments that have a local path receive pairwise different destination file names
  (the last component of their new paths), whatever their original names; each such
  attachment gets one.
\<close>

theorem relocated_attachments_get_distinct_file_names:
  assumes "\<forall>k. is_uuid (uuid_source w k)"
    and "inj_on (uuid_source w) {uuid_next w ..< uuid_next w + length (local_paths attachments)}"
    and "updatedAttachments r attachments w = (Inr updated, w')"
  shows "distinct (map file_name_of (local_paths updated))
         \<and> length (local_paths updated) = length (local_paths attachments)"
  using updatedAttachments_paths [OF assms(3)] new_names_file_names [OF assms(1)]
    new_names_distinct [OF assms(1,2)]
  by (simp add: new_names_length)

theorem relocated_attachments_get_distinct_file_names_witness:
  "fst (updatedAttachments demo_reporter [demo_attachment, demo_attachment] demo_world) =
     Inr [demo_attachment
            \<lparr>att_path := Some ''reports/chalisha-reporter/data/00000000-0000-4000-8000-000000000000.png'',
             att_url := Some ''./reports/chalisha-reporter/data/00000000-0000-4000-8000-000000000000.png''\<rparr>,
          demo_attachment
            \<lparr>att_path := Some ''reports/chalisha-reporter/data/11111111-1111-4111-8111-111111111111.png'',
             att_url := Some ''./reports/chalisha-reporter/data/11111111-1111-4111-8111-111111111111.png''\<rparr>]
   \<and> distinct (map file_name_of
        [''reports/chalisha-reporter/data/00000000-0000-4000-8000-000000000000.png'',
         ''reports/chalisha-reporter/data/11111111-1111-4111-8111-111111111111.png''])"
proof -
  define updated where "updated =
     [demo_attachment
            \<lparr>att_path := Some ''reports/chalisha-reporter/data/00000000-0000-4000-8000-000000000000.png'',
             att_url := Some ''./reports/chalisha-reporter/data/00000000-0000-4000-8000-000000000000.png''\<rparr>,
          demo_attachment
            \<lparr>att_path := Some ''reports/chalisha-reporter/data/11111111-1111-4111-8111-111111111111.png'',
             att_url := Some ''./reports/chalisha-reporter/data/11111111-1111-4111-8111-111111111111.png''\<rparr>]"
  have run: "fst (updatedAttachments demo_reporter [demo_attachment, demo_attachment] demo_world) =
     Inr [demo_attachment
            \<lparr>att_path := Some ''reports/chalisha-reporter/data/00000000-0000-4000-8000-000000000000.png'',
             att_url := Some ''./reports/chalisha-reporter/data/00000000-0000-4000-8000-000000000000.png''\<rparr>,
          demo_attachment
            \<lparr>att_path := Some ''reports/chalisha-reporter/data/11111111-1111-4111-8111-111111111111.png'',
             att_url := Some ''./reports/chalisha-reporter/data/11111111-1111-4111-8111-111111111111.png''\<rparr>]"
    by code_simp
  then have ok: "updatedAttachments demo_reporter [demo_attachment, demo_attachment] demo_world =
       (Inr updated, snd (updatedAttachments demo_reporter [demo_attachment, demo_attachment] demo_world))"
    unfolding updated_def by (metis prod.collapse)
  have uuids: "\<forall>k. is_uuid (uuid_source demo_world k)"
    by (simp add: demo_world_def is_uuid_def)
  have two: "local_paths [demo_attachment, demo_attachment] = [''/tmp/shot.png'', ''/tmp/shot.png'']"
    by (simp add: local_paths_def demo_attachment_def)
  have "inj_on (uuid_source demo_world) {0 ..< Suc (Suc 0)}"
    by (auto simp: inj_on_def demo_world_def split: if_splits)
  then have fresh: "inj_on (uuid_source demo_world)
      {uuid_next demo_world ..<
       uuid_next demo_world + length (local_paths [demo_attachment, demo_attachment])}"
    by (simp add: two) (simp add: demo_world_def)
  from relocated_attachments_get_distinct_file_names [OF uuids fresh ok]
  have "distinct (map file_name_of (local_paths updated))" by simp
  then have "distinct (map file_name_of
        [''reports/chalisha-reporter/data/00000000-0000-4000-8000-000000000000.png'',
         ''reports/chalisha-reporter/data/11111111-1111-4111-8111-111111111111.png''])"
    by (simp add: updated_def local_paths_def demo_attachment_def)
  with run show ?thesis by blast
qed

lemma updatedAttachments_cwd: "cwd (snd (updatedAttachments r attachments w)) = cwd w"
proof (induction attachments arbitrary: w)
  case Nil
  show ?case by simp
next
  case (Cons a rest)
  obtain res w1 where step: "updateAttachment r a w = (res, w1)"
    by (cases "updateAttachment r a w")
  have c1: "cwd w1 = cwd w"
  proof (cases "att_path a = None \<or> att_path a = Some []")
    case True
    then show ?thesis
      using step updateAttachment_passes_through [OF True, of r w] by simp
  next
    case False
    then obtain p where p: "att_path a = Some p" "p \<noteq> []" by auto
    show ?thesis
      using step unfolding updateAttachment_unfold [OF p]
      by (auto split: sum.splits if_splits dest!: mkdirSync_frame copyFileSync_frame)
  qed
  obtain res2 w2 where rest: "updatedAttachments r rest w1 = (res2, w2)"
    by (cases "updatedAttachments r rest w1")
  from Cons.IH [of w1] rest c1 have "cwd w2 = cwd w" by simp
  then show ?case
    using c1 by (cases res; cases res2) (simp_all add: step rest)
qed

text \<open>
  C9. Relocation copies and only adds files. Given fresh destination names (nothing
  exists yet at the paths the generated names denote), every file of the file system,
  and so every attachment's source file, is still at its path with its content after the
  relocation call, whether the call completes or throws part-way. And when the call
  completes and its destinations are pairwise different paths, every attachment whose
  local path is a readable file has been duplicated: its new path is the generated
  destination \<open>reportDir/data/uuid.ext\<close>, where nothing existed before the call and which
  is another file than the source, and after the call both the new path and the
  original path read the source's content.
\<close>

theorem relocation_keeps_original_files:
  assumes "\<forall>dst \<in> set (destinations r w attachments). fs_lookup (fs w) dst = None"
  shows "(\<forall>q d. fs_lookup (fs w) q = Some (File d) \<longrightarrow>
            fs_lookup (fs (snd (updatedAttachments r attachments w))) q = Some (File d))
       \<and> (\<forall>a \<in> set attachments. \<forall>p d.
            att_path a = Some p \<and> readFileSync w p = Inr d \<longrightarrow>
            readFileSync (snd (updatedAttachments r attachments w)) p = Inr d)
       \<and> (\<forall>updated w' i p d.
            updatedAttachments r attachments w = (Inr updated, w')
              \<and> distinct (destinations r w attachments)
              \<and> i < length attachments \<and> att_path (attachments ! i) = Some p \<and> p \<noteq> []
              \<and> readFileSync w p = Inr d \<longrightarrow>
            length updated = length attachments
            \<and> att_path (updated ! i) = Some (relocated_path r w attachments i p)
            \<and> \<not> existsSync w (relocated_path r w attachments i p)
            \<and> abs_segments (cwd w) (relocated_path r w attachments i p) \<noteq> abs_segments (cwd w) p
            \<and> readFileSync w' (relocated_path r w attachments i p) = Inr d
            \<and> readFileSync w' p = Inr d)"
proof -
  have keep: "fs_lookup (fs (snd (updatedAttachments r attachments w))) q = Some (File d)"
    if "fs_lookup (fs w) q = Some (File d)" for q d
  proof -
    from that assms have "q \<notin> set (destinations r w attachments)" by auto
    with that show ?thesis by (rule updatedAttachments_keeps_files)
  qed
  have read: "readFileSync (snd (updatedAttachments r attachments w)) p = Inr d"
    if "readFileSync w p = Inr d" for p d
  proof -
    from that have "fs_lookup (fs w) (abs_segments (cwd w) p) = Some (File d)"
      by (auto simp: readFileSync_def split: option.splits node.splits)
    from keep [OF this] show ?thesis
      by (simp add: readFileSync_def updatedAttachments_cwd)
  qed
  have copy: "length updated = length attachments
            \<and> att_path (updated ! i) = Some (relocated_path r w attachments i p)
            \<and> \<not> existsSync w (relocated_path r w attachments i p)
            \<and> abs_segments (cwd w) (relocated_path r w attachments i p) \<noteq> abs_segments (cwd w) p
            \<and> readFileSync w' (relocated_path r w attachments i p) = Inr d
            \<and> readFileSync w' p = Inr d"
    if run: "updatedAttachments r attachments w = (Inr updated, w')"
      and dist: "distinct (destinations r w attachments)"
      and i: "i < length attachments" "att_path (attachments ! i) = Some p" "p \<noteq> []"
      and src: "readFileSync w p = Inr d"
    for updated w' i p d
  proof -
    define np where "np = relocated_path r w attachments i p"
    from src have src0: "fs_lookup (fs w) (abs_segments (cwd w) p) = Some (File d)"
      by (auto simp: readFileSync_def split: option.splits node.splits)
    with assms have away: "abs_segments (cwd w) p \<notin> set (destinations r w attachments)"
      by auto
    from updatedAttachments_copies [OF run i src0 away dist]
    have path: "att_path (updated ! i) = Some np"
      and dest: "abs_segments (cwd w) np \<in> set (destinations r w attachments)"
      and there: "fs_lookup (fs w') (abs_segments (cwd w) np) = Some (File d)"
      by (simp_all add: np_def)
    have w': "w' = snd (updatedAttachments r attachments w)"
      by (simp add: run)
    have c': "cwd w' = cwd w"
      unfolding w' by (rule updatedAttachments_cwd)
    from dest assms have absent: "fs_lookup (fs w) (abs_segments (cwd w) np) = None"
      by blast
    then have "\<not> existsSync w np" by (simp add: existsSync_def)
    moreover from absent src0 have "abs_segments (cwd w) np \<noteq> abs_segments (cwd w) p"
      by auto
    moreover from there have "readFileSync w' np = Inr d"
      by (simp add: readFileSync_def c')
    moreover from read [OF src] have "readFileSync w' p = Inr d"
      by (simp add: w')
    moreover note path updatedAttachments_length [OF run]
    ultimately show ?thesis
      unfolding np_def by blast
  qed
  show ?thesis
    using keep read copy by blast
qed

theorem relocation_keeps_original_files_witness:
  "destinations demo_reporter demo_world [demo_attachment, demo_attachment] =
     [[''proj'', ''reports'', ''chalisha-reporter'', ''data'',
       ''00000000-0000-4000-8000-000000000000.png''],
      [''proj'', ''reports'', ''chalisha-reporter'', ''data'',
       ''11111111-1111-4111-8111-111111111111.png'']]
   \<and> readFileSync demo_world ''/tmp/shot.png'' = Inr ''PNG''
   \<and> \<not> existsSync demo_world
         ''reports/chalisha-reporter/data/00000000-0000-4000-8000-000000000000.png''
   \<and> \<not> existsSync demo_world
         ''reports/chalisha-reporter/data/11111111-1111-4111-8111-111111111111.png''
   \<and> local_paths (projr (fst
        (updatedAttachments demo_reporter [demo_attachment, demo_attachment] demo_world))) =
       [''reports/chalisha-reporter/data/00000000-0000-4000-8000-000000000000.png'',
        ''reports/chalisha-reporter/data/11111111-1111-4111-8111-111111111111.png'']
   \<and> readFileSync (snd (updatedAttachments demo_reporter [demo_attachment, demo_attachment] demo_world))
         ''reports/chalisha-reporter/data/00000000-0000-4000-8000-000000000000.png'' = Inr ''PNG''
   \<and> readFileSync (snd (updatedAttachments demo_reporter [demo_attachment, demo_attachment] demo_world))
         ''reports/chalisha-reporter/data/11111111-1111-4111-8111-111111111111.png'' = Inr ''PNG''
   \<and> readFileSync (snd (updatedAttachments demo_reporter [demo_attachment, demo_attachment] demo_world))
         ''/tmp/shot.png'' = Inr ''PNG''"
proof -
  define atts where "atts = [demo_attachment, demo_attachment]"
  define w' where "w' = snd (updatedAttachments demo_reporter atts demo_world)"
  define updated where "updated = projr (fst (updatedAttachments demo_reporter atts demo_world))"
  have dests: "destinations demo_reporter demo_world atts =
     [[''proj'', ''reports'', ''chalisha-reporter'', ''data'',
       ''00000000-0000-4000-8000-000000000000.png''],
      [''proj'', ''reports'', ''chalisha-reporter'', ''data'',
       ''11111111-1111-4111-8111-111111111111.png'']]"
    unfolding atts_def by code_simp
  have fresh: "\<forall>dst \<in> set (destinations demo_reporter demo_world atts).
                 fs_lookup (fs demo_world) dst = None"
    unfolding dests by (simp add: demo_world_def)
  have dist: "distinct (destinations demo_reporter demo_world atts)"
    unfolding dests by simp
  have before: "readFileSync demo_world ''/tmp/shot.png'' = Inr ''PNG''"
    by code_simp
  have "isl (fst (updatedAttachments demo_reporter atts demo_world)) = False"
    unfolding atts_def by code_simp
  then have "fst (updatedAttachments demo_reporter atts demo_world) = Inr updated"
    unfolding updated_def by (cases "fst (updatedAttachments demo_reporter atts demo_world)") simp_all
  then have run: "updatedAttachments demo_reporter atts demo_world = (Inr updated, w')"
    unfolding w'_def by (metis prod.collapse)
  have a: "att_path (atts ! 0) = Some ''/tmp/shot.png''" "att_path (atts ! 1) = Some ''/tmp/shot.png''"
    "(0::nat) < length atts" "(1::nat) < length atts" "''/tmp/shot.png'' \<noteq> []"
    by (simp_all add: atts_def demo_attachment_def)
  have np: "relocated_path demo_reporter demo_world atts 0 ''/tmp/shot.png'' =
              ''reports/chalisha-reporter/data/00000000-0000-4000-8000-000000000000.png''"
    "relocated_path demo_reporter demo_world atts 1 ''/tmp/shot.png'' =
              ''reports/chalisha-reporter/data/11111111-1111-4111-8111-111111111111.png''"
    unfolding atts_def by code_simp+
  note inst = relocation_keeps_original_files [OF fresh]
  from inst run dist a(1,3,5) before
  have first: "length updated = length atts
     \<and> att_path (updated ! 0) =
         Some (relocated_path demo_reporter demo_world atts 0 ''/tmp/shot.png'')
     \<and> \<not> existsSync demo_world (relocated_path demo_reporter demo_world atts 0 ''/tmp/shot.png'')
     \<and> abs_segments (cwd demo_world)
         (relocated_path demo_reporter demo_world atts 0 ''/tmp/shot.png'')
         \<noteq> abs_segments (cwd demo_world) ''/tmp/shot.png''
     \<and> readFileSync w' (relocated_path demo_reporter demo_world atts 0 ''/tmp/shot.png'') = Inr ''PNG''
     \<and> readFileSync w' ''/tmp/shot.png'' = Inr ''PNG''"
    by blast
  from inst run dist a(2,4,5) before
  have second: "length updated = length atts
     \<and> att_path (updated ! 1) =
         Some (relocated_path demo_reporter demo_world atts 1 ''/tmp/shot.png'')
     \<and> \<not> existsSync demo_world (relocated_path demo_reporter demo_world atts 1 ''/tmp/shot.png'')
     \<and> abs_segments (cwd demo_world)
         (relocated_path demo_reporter demo_world atts 1 ''/tmp/shot.png'')
         \<noteq> abs_segments (cwd demo_world) ''/tmp/shot.png''
     \<and> readFileSync w' (relocated_path demo_reporter demo_world atts 1 ''/tmp/shot.png'') = Inr ''PNG''
     \<and> readFileSync w' ''/tmp/shot.png'' = Inr ''PNG''"
    by blast
  from first have "length updated = 2" by (simp add: atts_def)
  then obtain u0 u1 where u: "updated = [u0, u1]"
    by (metis (no_types, opaque_lifting) Suc_length_conv length_0_conv numeral_2_eq_2)
  from first second have paths: "local_paths updated =
       [''reports/chalisha-reporter/data/00000000-0000-4000-8000-000000000000.png'',
        ''reports/chalisha-reporter/data/11111111-1111-4111-8111-111111111111.png'']"
    unfolding np by (simp add: u local_paths_def)
  from first have absent0: "\<not> existsSync demo_world
         ''reports/chalisha-reporter/data/00000000-0000-4000-8000-000000000000.png''"
    and copy0: "readFileSync w'
         ''reports/chalisha-reporter/data/00000000-0000-4000-8000-000000000000.png'' = Inr ''PNG''"
    and after: "readFileSync w' ''/tmp/shot.png'' = Inr ''PNG''"
    unfolding np by blast+
  from second have absent1: "\<not> existsSync demo_world
         ''reports/chalisha-reporter/data/11111111-1111-4111-8111-111111111111.png''"
    and copy1: "readFileSync w'
         ''reports/chalisha-reporter/data/11111111-1111-4111-8111-111111111111.png'' = Inr ''PNG''"
    unfolding np by blast+
  note parts = dests [unfolded atts_def] before absent0 absent1
    paths [unfolded updated_def atts_def] copy0 [unfolded w'_def atts_def]
    copy1 [unfolded w'_def atts_def] after [unfolded w'_def atts_def]
  show ?thesis
    by (intro conjI) (rule parts)+
qed

section \<open>Facts about relative paths\<close>

lemma segments_rooted:
  assumes "\<forall>s \<in> set xs. valid_name s"
  shows "segments (CHR ''/'' # join_with (CHR ''/'') xs) = xs"
proof (cases "xs = []")
  case True
  then show ?thesis by (simp add: segments_def)
next
  case False
  have "\<forall>s \<in> set xs. s \<noteq> []" using assms by (simp add: valid_name_def)
  then have "filter (\<lambda>s. s \<noteq> []) xs = xs" by (simp add: filter_id_conv)
  then show ?thesis
    using False assms by (simp add: segments_def split_posix_join)
qed

lemma split_trailing:
  "split_on (isPathSeparator Posix) (s @ ''/'') = split_on (isPathSeparator Posix) s @ [[]]"
proof -
  have "split_on (isPathSeparator Posix) (s @ CHR ''/'' # []) =
        split_on (isPathSeparator Posix) s @ split_on (isPathSeparator Posix) []"
    by (rule split_on_append) simp
  then show ?thesis by simp
qed

lemma normalize_trailing:
  "normalize_segments a (split_on (isPathSeparator Posix) (s @ ''/'')) =
   normalize_segments a (split_on (isPathSeparator Posix) s)"
  by (simp add: split_trailing normalize_segments_def normalize_step_def)

lemma path_resolve_from_segments:
  assumes "c \<noteq> []" "hd c = CHR ''/''"
  shows "path_resolve c args = CHR ''/'' # join_with (CHR ''/'') (segments (path_resolve c args))"
proof -
  let ?X = "normalize_segments False
              (split_on (isPathSeparator Posix) (fst (resolve_loop (rev args @ [c]) [])))"
  have form: "path_resolve c args = CHR ''/'' # join_with (CHR ''/'') ?X"
    by (rule path_resolve_form [OF assms])
  have "segments (CHR ''/'' # join_with (CHR ''/'') ?X) = ?X"
    by (rule segments_rooted) (rule normalize_False_valid)
  then show ?thesis
    unfolding form by simp
qed

lemma segments_path_resolve:
  assumes "c \<noteq> []" "hd c = CHR ''/''"
  shows "segments (path_resolve c [p]) = abs_segments c p"
proof -
  define rp where "rp = fst (resolve_loop (rev [p] @ [c]) [])"
  have form: "path_resolve c [p] =
        CHR ''/'' # join_with (CHR ''/'') (normalize_segments False (split_on (isPathSeparator Posix) rp))"
    unfolding rp_def by (rule path_resolve_form [OF assms])
  have seg: "segments (path_resolve c [p]) =
             normalize_segments False (split_on (isPathSeparator Posix) rp)"
    unfolding form by (rule segments_rooted) (rule normalize_False_valid)
  define X where "X = (if p \<noteq> [] \<and> hd p = CHR ''/'' then p else c @ ''/'' @ p)"
  have abs: "abs_segments c p = normalize_segments False (split_on (isPathSeparator Posix) X)"
    by (simp add: abs_segments_def X_def)
  have "normalize_segments False (split_on (isPathSeparator Posix) rp) =
        normalize_segments False (split_on (isPathSeparator Posix) X)"
  proof (cases "p = []")
    case True
    then have "rp = c @ ''/''" "X = c @ ''/''"
      using assms by (simp_all add: rp_def X_def)
    then show ?thesis by simp
  next
    case False
    then have "rp = X @ ''/''"
      using assms by (simp add: rp_def X_def)
    then show ?thesis by (simp only: normalize_trailing)
  qed
  with seg abs show ?thesis by simp
qed

lemma strip_common_shape:
  "strip_common xs ys = (xs', ys') \<Longrightarrow> \<exists>com. xs = com @ xs' \<and> ys = com @ ys'"
proof (induction xs ys rule: strip_common.induct)
  case (1 ys)
  then have "[] = [] @ xs'" "ys = [] @ ys'" by simp_all
  then show ?case by blast
next
  case (2 x xs)
  then have "x # xs = [] @ xs'" "[] = [] @ ys'" by simp_all
  then show ?case by blast
next
  case (3 x xs y ys)
  show ?case
  proof (cases "x = y")
    case True
    with "3.prems" have "strip_common xs ys = (xs', ys')" by simp
    from "3.IH" [OF True this] obtain com where "xs = com @ xs'" "ys = com @ ys'" by blast
    then have "x # xs = (x # com) @ xs'" "y # ys = (x # com) @ ys'" using True by simp_all
    then show ?thesis by blast
  next
    case False
    with "3.prems" have "x # xs = [] @ xs'" "y # ys = [] @ ys'" by simp_all
    then show ?thesis by blast
  qed
qed

lemma abs_segments_relative:
  "p = [] \<or> hd p \<noteq> CHR ''/'' \<Longrightarrow>
   abs_segments base p =
     foldl (normalize_step False)
       (normalize_segments False (split_on (isPathSeparator Posix) base))
       (split_on (isPathSeparator Posix) p)"
proof -
  assume rel: "p = [] \<or> hd p \<noteq> CHR ''/''"
  have "split_on (isPathSeparator Posix) (base @ CHR ''/'' # p) =
        split_on (isPathSeparator Posix) base @ split_on (isPathSeparator Posix) p"
    by (rule split_on_append) simp
  then show ?thesis
    using rel by (auto simp: abs_segments_def normalize_segments_def)
qed

lemma abs_segments_absolute:
  "p \<noteq> [] \<Longrightarrow> hd p = CHR ''/'' \<Longrightarrow>
   abs_segments base p = normalize_segments False (split_on (isPathSeparator Posix) p)"
  by (simp add: abs_segments_def)

lemma path_relative_same:
  "root = np \<or> path_resolve c [root] = path_resolve c [np] \<Longrightarrow> path_relative c root np = []"
  unfolding path_relative_def Let_def by (cases "root = np") simp_all

lemma path_relative_differ:
  assumes "root \<noteq> np" "path_resolve c [root] \<noteq> path_resolve c [np]"
    and "strip_common (segments (path_resolve c [root])) (segments (path_resolve c [np])) = (ups, ts)"
  shows "path_relative c root np = join_with (CHR ''/'') (replicate (length ups) ''..'' @ ts)"
  unfolding path_relative_def Let_def using assms by simp

lemma split_dot_slash:
  "split_on (isPathSeparator Posix) (''./'' @ rel) = ''.'' # split_on (isPathSeparator Posix) rel"
proof -
  have "split_on (isPathSeparator Posix) (''.'' @ CHR ''/'' # rel) =
        split_on (isPathSeparator Posix) ''.'' @ split_on (isPathSeparator Posix) rel"
    by (rule split_on_append) simp
  then show ?thesis by simp
qed

lemma normalize_step_dot: "normalize_step a acc ''.'' = acc"
  by (simp add: normalize_step_def)

lemma normalize_step_empty: "normalize_step a acc [] = acc"
  by (simp add: normalize_step_def)

lemma relative_url_resolves:
  assumes c: "c \<noteq> []" "hd c = CHR ''/''" and root: "root \<noteq> []" "hd root = CHR ''/''"
  shows "abs_segments root (''./'' @ path_relative c root np) = abs_segments c np"
proof -
  define F where "F = abs_segments c root"
  define T where "T = abs_segments c np"
  have Fnorm: "F = normalize_segments False (split_on (isPathSeparator Posix) root)"
    unfolding F_def using root by (rule abs_segments_absolute)
  have Fvalid: "\<forall>s \<in> set F. valid_name s" and Tvalid: "\<forall>s \<in> set T. valid_name s"
    unfolding F_def T_def by (rule abs_segments_valid)+
  have segF: "segments (path_resolve c [root]) = F" and segT: "segments (path_resolve c [np]) = T"
    unfolding F_def T_def by (rule segments_path_resolve [OF c])+
  have start: "abs_segments root (''./'' @ rel) =
               foldl (normalize_step False) F (split_on (isPathSeparator Posix) rel)" for rel
  proof -
    have "abs_segments root (''./'' @ rel) =
          foldl (normalize_step False) F (split_on (isPathSeparator Posix) (''./'' @ rel))"
      unfolding Fnorm by (rule abs_segments_relative) simp
    then show ?thesis
      unfolding split_dot_slash by (simp only: foldl_Cons normalize_step_dot)
  qed
  show ?thesis
  proof (cases "root = np \<or> path_resolve c [root] = path_resolve c [np]")
    case True
    then have rel: "path_relative c root np = []"
      by (rule path_relative_same)
    from True have "F = T"
      using segF segT by (auto simp: F_def T_def)
    moreover have "abs_segments root (''./'' @ []) = F"
      unfolding start by (simp add: normalize_step_empty)
    ultimately show ?thesis
      unfolding rel T_def by simp
  next
    case False
    then have neq: "root \<noteq> np" "path_resolve c [root] \<noteq> path_resolve c [np]" by simp_all
    obtain ups ts where sc: "strip_common F T = (ups, ts)"
      by (cases "strip_common F T")
    from strip_common_shape [OF sc] obtain com where com: "F = com @ ups" "T = com @ ts"
      by blast
    have rel: "path_relative c root np =
               join_with (CHR ''/'') (replicate (length ups) ''..'' @ ts)"
      using sc by (intro path_relative_differ [OF neq]) (simp only: segF segT)
    have ne: "replicate (length ups) ''..'' @ ts \<noteq> []"
    proof
      assume "replicate (length ups) ''..'' @ ts = []"
      then have "F = T" using com by simp
      then have "segments (path_resolve c [root]) = segments (path_resolve c [np])"
        using segF segT by simp
      then have "path_resolve c [root] = path_resolve c [np]"
        using path_resolve_from_segments [OF c, of "[root]"]
          path_resolve_from_segments [OF c, of "[np]"]
        by simp
      with neq show False by simp
    qed
    have "\<forall>s \<in> set ts. CHR ''/'' \<notin> set s"
      using Tvalid com by (simp add: valid_name_def)
    then have free: "\<forall>s \<in> set (replicate (length ups) ''..'' @ ts).
                       \<forall>ch \<in> set s. \<not> isPathSeparator Posix ch"
      by auto
    have split: "split_on (isPathSeparator Posix) (path_relative c root np) =
                 replicate (length ups) ''..'' @ ts"
      unfolding rel by (rule split_on_join [OF _ ne free]) simp
    have upsplain: "\<forall>y \<in> set ups. plain y" and tsplain: "\<forall>y \<in> set ts. plain y"
      using Fvalid Tvalid com by (auto simp: valid_name_plain)
    have "abs_segments root (''./'' @ path_relative c root np) =
          foldl (normalize_step False) (com @ ups) (replicate (length ups) ''..'' @ ts)"
      unfolding start split com ..
    also have "\<dots> = foldl (normalize_step False) com ts"
      by (simp only: foldl_append foldl_step_pop [OF upsplain])
    also have "\<dots> = com @ ts"
      by (rule foldl_step_plain [OF tsplain])
    finally show ?thesis by (simp only: com T_def [symmetric])
  qed
qed

section \<open>The URL of a relocated attachment\<close>

text \<open>
  C3, as the claim states it, fails: the URL recorded for a relocated attachment is not
  relative to the report output directory. With the default \<open>reportDir\<close> and the working
  directory \<open>/proj\<close> the copy is at \<open>/proj/reports/chalisha-reporter/data/<uuid>.png\<close> and
  the URL is \<open>./reports/chalisha-reporter/data/<uuid>.png\<close>; read from the report
  directory \<open>/proj/reports/chalisha-reporter\<close> it does not lead to the copy.
\<close>

theorem relocated_url_relative_to_report_root_counterexample:
  "fst (updateAttachment demo_reporter demo_attachment demo_world) =
     Inr (demo_attachment
            \<lparr>att_path := Some ''reports/chalisha-reporter/data/00000000-0000-4000-8000-000000000000.png'',
             att_url := Some ''./reports/chalisha-reporter/data/00000000-0000-4000-8000-000000000000.png''\<rparr>)
   \<and> path_resolve (cwd demo_world) [projectRoot demo_reporter, reportDir demo_reporter] =
       ''/proj/reports/chalisha-reporter''
   \<and> \<not> url_relative_to ''/proj/reports/chalisha-reporter''
         ''./reports/chalisha-reporter/data/00000000-0000-4000-8000-000000000000.png''
         (abs_segments (cwd demo_world)
            ''reports/chalisha-reporter/data/00000000-0000-4000-8000-000000000000.png'')"
proof -
  have one: "fst (updateAttachment demo_reporter demo_attachment demo_world) =
     Inr (demo_attachment
            \<lparr>att_path := Some ''reports/chalisha-reporter/data/00000000-0000-4000-8000-000000000000.png'',
             att_url := Some ''./reports/chalisha-reporter/data/00000000-0000-4000-8000-000000000000.png''\<rparr>)"
    by code_simp
  have two: "path_resolve (cwd demo_world) [projectRoot demo_reporter, reportDir demo_reporter] =
       ''/proj/reports/chalisha-reporter''"
    by code_simp
  have three: "\<not> url_relative_to ''/proj/reports/chalisha-reporter''
         ''./reports/chalisha-reporter/data/00000000-0000-4000-8000-000000000000.png''
         (abs_segments (cwd demo_world)
            ''reports/chalisha-reporter/data/00000000-0000-4000-8000-000000000000.png'')"
    by code_simp
  from one two three show ?thesis by blast
qed

text \<open>
  C3, amended. For every attachment with a local path, a successful relocation records
  the new local path and a URL of the form \<open>./<path>\<close> that is relative to the project
  root (the working directory the reporter was constructed in): read from the project
  root, the URL leads to the copied file.
\<close>

theorem relocated_url_is_relative_to_project_root:
  assumes "cwd w \<noteq> []" and "hd (cwd w) = CHR ''/''"
    and "projectRoot r \<noteq> []" and "hd (projectRoot r) = CHR ''/''"
    and "att_path a = Some p" and "p \<noteq> []"
    and "updateAttachment r a w = (Inr a', w')"
  shows "\<exists>np u. att_path a' = Some np \<and> att_url a' = Some (''./'' @ u)
               \<and> url_relative_to (projectRoot r) (''./'' @ u) (abs_segments (cwd w) np)"
proof -
  define np where "np = path_join Posix
                          [reportDir r, ''data'', uuid_source w (uuid_next w) @ path_extname Posix p]"
  from updateAttachment_relocates [OF assms(5,6,7)]
  have a': "att_path a' = Some np"
    "att_url a' = Some (''./'' @ path_relative (cwd w) (projectRoot r) np)"
    by (simp_all add: np_def)
  have "url_relative_to (projectRoot r) (''./'' @ path_relative (cwd w) (projectRoot r) np)
          (abs_segments (cwd w) np)"
    unfolding url_relative_to_def by (rule relative_url_resolves [OF assms(1-4)])
  with a' show ?thesis by blast
qed

theorem relocated_url_is_relative_to_project_root_witness:
  "fst (updateAttachment demo_reporter demo_attachment demo_world) =
     Inr (demo_attachment
            \<lparr>att_path := Some ''reports/chalisha-reporter/data/00000000-0000-4000-8000-000000000000.png'',
             att_url := Some ''./reports/chalisha-reporter/data/00000000-0000-4000-8000-000000000000.png''\<rparr>)
   \<and> url_relative_to ''/proj''
         ''./reports/chalisha-reporter/data/00000000-0000-4000-8000-000000000000.png''
         (abs_segments ''/proj''
            ''reports/chalisha-reporter/data/00000000-0000-4000-8000-000000000000.png'')"
proof -
  define a' where "a' = demo_attachment
            \<lparr>att_path := Some ''reports/chalisha-reporter/data/00000000-0000-4000-8000-000000000000.png'',
             att_url := Some ''./reports/chalisha-reporter/data/00000000-0000-4000-8000-000000000000.png''\<rparr>"
  have run: "fst (updateAttachment demo_reporter demo_attachment demo_world) =
     Inr (demo_attachment
            \<lparr>att_path := Some ''reports/chalisha-reporter/data/00000000-0000-4000-8000-000000000000.png'',
             att_url := Some ''./reports/chalisha-reporter/data/00000000-0000-4000-8000-000000000000.png''\<rparr>)"
    by code_simp
  then have ok: "updateAttachment demo_reporter demo_attachment demo_world =
       (Inr a', snd (updateAttachment demo_reporter demo_attachment demo_world))"
    unfolding a'_def by (metis prod.collapse)
  have hyps: "cwd demo_world \<noteq> []" "hd (cwd demo_world) = CHR ''/''"
    "projectRoot demo_reporter \<noteq> []" "hd (projectRoot demo_reporter) = CHR ''/''"
    "att_path demo_attachment = Some ''/tmp/shot.png''" "''/tmp/shot.png'' \<noteq> []"
    by (simp_all add: demo_world_def demo_reporter_def demo_attachment_def)
  from relocated_url_is_relative_to_project_root [OF hyps ok]
  obtain np u where "att_path a' = Some np" "att_url a' = Some (''./'' @ u)"
    "url_relative_to (projectRoot demo_reporter) (''./'' @ u) (abs_segments (cwd demo_world) np)"
    by blast
  then have "url_relative_to ''/proj''
         ''./reports/chalisha-reporter/data/00000000-0000-4000-8000-000000000000.png''
         (abs_segments ''/proj''
            ''reports/chalisha-reporter/data/00000000-0000-4000-8000-000000000000.png'')"
    by (simp add: a'_def demo_attachment_def demo_reporter_def demo_world_def)
  with run show ?thesis by blast
qed

section \<open>Facts about the directory mirror\<close>














lemma replace_backslashes_append:
  "replace_backslashes (a @ b) = replace_backslashes a @ replace_backslashes b"
  by (simp add: replace_backslashes_def)









section \<open>Mirroring a directory\<close>




end
